theory Spec2Isabelle
  imports Main
begin

section \<open>The board of termsweeper: data model\<close>

text \<open>
  The module constants \<open>GRID_WIDTH\<close>, \<open>GRID_HEIGHT\<close> and \<open>MINES_AMOUNT\<close> of
  \<open>termsweeper.py\<close> (16, 16, 40; the source's comments list 9/9/10 and 30/16/99 as the
  other standard boards) are the fields of a configuration, so that every function is
  stated for any board size. Python's integers are unbounded: \<open>int\<close>.
\<close>

record cfg =
  GRID_WIDTH :: int
  GRID_HEIGHT :: int
  MINES_AMOUNT :: int

definition std_cfg :: cfg where
  "std_cfg = \<lparr>GRID_WIDTH = 16, GRID_HEIGHT = 16, MINES_AMOUNT = 40\<rparr>"

text \<open>\<open>class Position(NamedTuple)\<close>: a pair of integers, compared by value.\<close>

datatype Position = Position (row: int) (col: int)

text \<open>\<open>class SelectAction(Enum)\<close>.\<close>

datatype SelectAction = OPEN | FLAG

text \<open>
  The label of a button is one of the four class constants \<open>CHAR_*\<close> of \<open>MineButton\<close>
  or \<open>str(value)\<close>, written \<open>Digits value\<close>.
\<close>

datatype label = CHAR_UNOPENED | CHAR_EMPTY | CHAR_FLAGGED | CHAR_MINE | Digits int

definition NUMBER_COLORS :: "string list" where
  "NUMBER_COLORS = [''black'', ''blue'', ''green'', ''red'', ''darkblue'', ''darkred'',
     ''darkcyan'', ''white'', ''grey'', ''deeppink'']"

text \<open>
  \<open>class MineButton\<close>: the attributes that \<open>reset\<close> initialises and the game logic
  reads or writes. (\<open>disabled\<close> and \<open>mines_flagged\<close> of a button are written by
  \<open>MineButton.reset\<close> only and never read; the sizes and borders are layout.)
\<close>

record button =
  explored :: bool
  flagged :: bool
  can_focus :: bool
  label :: label
  color :: string

text \<open>\<open>class MineGrid.GameEnd(Message)\<close>, with its field \<open>win\<close>.\<close>

datatype GameEnd = GameEnd (win: bool)

text \<open>
  \<open>class MineGrid\<close>. The list of lists \<open>buttons\<close> holds one button for every position
  of the grid; a button is a mutable object that is reached through its position, so the
  state maps positions to the attribute values of their buttons. \<open>posted\<close> is the queue
  of messages that \<open>post_message\<close> has appended and that no handler has taken yet.
\<close>

record grid =
  total_explored :: int
  mines_flagged :: int
  current_cell :: Position
  buttons :: "Position \<Rightarrow> button"
  mines :: "Position set"
  disabled :: bool
  posted :: "GameEnd list"

definition in_grid :: "cfg \<Rightarrow> Position \<Rightarrow> bool" where
  "in_grid c p \<longleftrightarrow> 0 \<le> row p \<and> row p < GRID_HEIGHT c \<and> 0 \<le> col p \<and> col p < GRID_WIDTH c"

definition cells :: "cfg \<Rightarrow> Position set" where
  "cells c = {p. in_grid c p}"

text \<open>\<open>MineGrid.button_at\<close>.\<close>

definition button_at :: "grid \<Rightarrow> Position \<Rightarrow> button" where
  "button_at s position = buttons s position"

definition set_button :: "grid \<Rightarrow> Position \<Rightarrow> button \<Rightarrow> grid" where
  "set_button s position b = s\<lparr>buttons := (buttons s)(position := b)\<rparr>"

section \<open>Buttons\<close>

text \<open>\<open>MineButton.reset\<close>.\<close>

definition button_reset :: button where
  "button_reset = \<lparr>explored = False, flagged = False, can_focus = False,
     label = CHAR_UNOPENED, color = ''white''\<rparr>"

text \<open>\<open>MineButton.toggle_flagged\<close>.\<close>

definition toggle_flagged :: "button \<Rightarrow> button" where
  "toggle_flagged b =
     b\<lparr>flagged := \<not> flagged b,
       label := (if \<not> flagged b then CHAR_FLAGGED else CHAR_UNOPENED)\<rparr>"

text \<open>
  \<open>MineButton.set_number\<close>; \<open>open_cell\<close> calls it with a count between 1 and 9, which
  indexes \<open>NUMBER_COLORS\<close> in range.
\<close>

definition set_number :: "button \<Rightarrow> int \<Rightarrow> button" where
  "set_number b v = b\<lparr>label := Digits v, color := NUMBER_COLORS ! nat v\<rparr>"

text \<open>\<open>MineButton.explode\<close>.\<close>

definition explode :: "button \<Rightarrow> button" where
  "explode b = b\<lparr>label := CHAR_MINE, color := ''deeppink''\<rparr>"

section \<open>Mines\<close>

text \<open>
  \<open>MineGrid.generate_mines\<close>. \<open>random.sample(range(n), amount)\<close> returns a list of
  \<open>amount\<close> distinct elements of \<open>range(n)\<close>; the list it draws is the parameter
  \<open>xs\<close>, and \<open>is_sample\<close> is the contract of the library function. \<open>int(x/GRID_WIDTH)\<close>
  truncates the quotient; for an index \<open>x \<ge> 0\<close> and a positive width (the boards of the
  game, far below the range where the division of two floats rounds) that is
  \<open>x div GRID_WIDTH\<close>.
\<close>

definition is_sample :: "int \<Rightarrow> int \<Rightarrow> int list \<Rightarrow> bool" where
  "is_sample n amount xs \<longleftrightarrow>
     distinct xs \<and> int (length xs) = amount \<and> (\<forall>x \<in> set xs. 0 \<le> x \<and> x < n)"

definition generate_mines :: "cfg \<Rightarrow> int list \<Rightarrow> Position set" where
  "generate_mines c xs = set (map (\<lambda>x. Position (x div GRID_WIDTH c) (x mod GRID_WIDTH c)) xs)"

text \<open>
  \<open>MineGrid.count_mines_near\<close>: the two loops over \<open>range(pos.row-1, pos.row+1+1)\<close>
  and \<open>range(pos.col-1, pos.col+1+1)\<close>, with the counter threaded through.
\<close>

definition count_mines_near :: "Position set \<Rightarrow> Position \<Rightarrow> int" where
  "count_mines_near ms pos =
     fold (\<lambda>i count.
        fold (\<lambda>j count. if Position i j \<in> ms then count + 1 else count)
          [col pos - 1 .. col pos + 1] count)
       [row pos - 1 .. row pos + 1] 0"

section \<open>Opening a cell\<close>

text \<open>
  The positions that the two loops of \<open>open_cell\<close> visit, in the order of the loops:
  \<open>range(max(0,pos.row-1), min(GRID_HEIGHT,pos.row+1+1))\<close> for the rows and the same
  with \<open>GRID_WIDTH\<close> for the columns.
\<close>

definition adjacent :: "cfg \<Rightarrow> Position \<Rightarrow> Position list" where
  "adjacent c pos =
     concat (map (\<lambda>i. map (\<lambda>j. Position i j)
                   [max 0 (col pos - 1) .. min (GRID_WIDTH c) (col pos + 1 + 1) - 1])
               [max 0 (row pos - 1) .. min (GRID_HEIGHT c) (row pos + 1 + 1) - 1])"

definition post_message :: "grid \<Rightarrow> GameEnd \<Rightarrow> grid" where
  "post_message s m = s\<lparr>posted := posted s @ [m]\<rparr>"

text \<open>The first two statements of \<open>open_cell\<close> after the guard.\<close>

definition mark_explored :: "grid \<Rightarrow> Position \<Rightarrow> grid" where
  "mark_explored s pos =
     (set_button s pos ((button_at s pos)\<lparr>explored := True\<rparr>))
       \<lparr>total_explored := total_explored s + 1\<rparr>"

text \<open>The branch \<open>if pos in self.mines\<close>.\<close>

definition detonate :: "grid \<Rightarrow> Position \<Rightarrow> grid" where
  "detonate s pos =
     post_message
       (set_button s pos ((button_at s pos)\<lparr>label := CHAR_MINE, color := NUMBER_COLORS ! 9\<rparr>))
       (GameEnd False)"

text \<open>The last two lines of \<open>open_cell\<close>.\<close>

definition win_check :: "cfg \<Rightarrow> grid \<Rightarrow> grid" where
  "win_check c s =
     (if total_explored s \<ge> GRID_HEIGHT c * GRID_WIDTH c - MINES_AMOUNT c
      then post_message s (GameEnd True) else s)"

text \<open>
  \<open>MineGrid.open_cell\<close>. The source passes the button; the model passes its position.
  Every button is a button of the grid, so the position of the argument lies in the
  grid; the first test keeps the model total on the positions that have no button.
  \<open>open_cells\<close> is the body of the two nested loops, run over the positions they visit.
\<close>

function open_cell :: "cfg \<Rightarrow> grid \<Rightarrow> Position \<Rightarrow> grid"
  and open_cells :: "cfg \<Rightarrow> grid \<Rightarrow> Position list \<Rightarrow> grid" where
  "open_cell c s pos =
     (if \<not> in_grid c pos then s
      else if explored (button_at s pos) then s
      else if pos \<in> mines s then detonate (mark_explored s pos) pos
      else win_check c
        (if count_mines_near (mines s) pos = 0
         then open_cells c
                (set_button (mark_explored s pos) pos
                   ((button_at (mark_explored s pos) pos)\<lparr>label := CHAR_EMPTY\<rparr>))
                (adjacent c pos)
         else set_button (mark_explored s pos) pos
                (set_number (button_at (mark_explored s pos) pos)
                   (count_mines_near (mines s) pos))))"
| "open_cells c s [] = s"
| "open_cells c s (p # ps) = open_cells c (open_cell c s p) ps"
  by pat_completeness auto

subsection \<open>\<open>open_cell\<close> returns\<close>

text \<open>
  Every call of \<open>open_cell\<close> that recurses has first marked an unexplored cell of the
  grid as explored, and no call resets the mark: the number of unexplored cells of the
  grid decreases.
\<close>

definition unexplored :: "cfg \<Rightarrow> grid \<Rightarrow> Position set" where
  "unexplored c s = {p \<in> cells c. \<not> explored (button_at s p)}"

lemma cells_eq: "cells c = (\<lambda>(i, j). Position i j) ` ({0..<GRID_HEIGHT c} \<times> {0..<GRID_WIDTH c})"
  apply (auto simp: cells_def in_grid_def image_iff)
  subgoal for p by (cases p) auto
  done

lemma finite_cells: "finite (cells c)"
  by (simp add: cells_eq)

lemma finite_unexplored: "finite (unexplored c s)"
  by (rule finite_subset [OF _ finite_cells]) (auto simp: unexplored_def)

lemma explored_mark_explored:
  "explored (button_at (mark_explored s pos) q) \<longleftrightarrow> q = pos \<or> explored (button_at s q)"
  by (simp add: mark_explored_def set_button_def button_at_def)

lemma explored_set_label:
  "explored (button_at (set_button s pos ((button_at s pos)\<lparr>label := l\<rparr>)) q) = explored (button_at s q)"
  by (simp add: set_button_def button_at_def)

lemma explored_set_number:
  "explored (button_at (set_button s pos (set_number (button_at s pos) n)) q) = explored (button_at s q)"
  by (simp add: set_button_def button_at_def set_number_def)

lemma explored_detonate:
  "explored (button_at (detonate s pos) q) = explored (button_at s q)"
  by (simp add: detonate_def post_message_def set_button_def button_at_def)

lemma explored_win_check:
  "explored (button_at (win_check c s) q) = explored (button_at s q)"
  by (simp add: win_check_def post_message_def button_at_def)

lemma open_cell_mono_dom:
  "open_cell_open_cells_dom (Inl (c, s, pos)) \<Longrightarrow>
     explored (button_at s q) \<Longrightarrow> explored (button_at (open_cell c s pos) q)"
  "open_cell_open_cells_dom (Inr (c, s, ps)) \<Longrightarrow>
     explored (button_at s q) \<Longrightarrow> explored (button_at (open_cells c s ps) q)"
proof (induction c s pos and c s ps rule: open_cell_open_cells.pinduct)
  case (1 c s pos)
  then show ?case
    by (simp add: open_cell.psimps explored_mark_explored explored_set_label
        explored_set_number explored_detonate explored_win_check)
next
  case (2 c s)
  then show ?case by (simp add: open_cells.psimps)
next
  case (3 c s p ps)
  then show ?case by (simp add: open_cells.psimps)
qed

lemma unexplored_mono_dom:
  "open_cell_open_cells_dom (Inl (c, s, pos)) \<Longrightarrow>
     card (unexplored c (open_cell c s pos)) \<le> card (unexplored c s)"
  by (rule card_mono [OF finite_unexplored]) (auto simp: unexplored_def dest: open_cell_mono_dom(1))

lemma unexplored_mark:
  "in_grid c pos \<Longrightarrow> \<not> explored (button_at s pos) \<Longrightarrow>
     card (unexplored c (set_button (mark_explored s pos) pos
                   ((button_at (mark_explored s pos) pos)\<lparr>label := l\<rparr>)))
       < card (unexplored c s)"
  by (rule psubset_card_mono [OF finite_unexplored])
     (auto simp: unexplored_def explored_set_label explored_mark_explored cells_def)

termination open_cell
proof (relation "inv_image (less_than <*lex*> less_than)
    (\<lambda>x. case x of Inl (c, s, pos) \<Rightarrow> (card (unexplored c s), 0)
                 | Inr (c, s, ps) \<Rightarrow> (card (unexplored c s), Suc (length ps)))", goal_cases)
  case 1
  show ?case by (intro wf_inv_image wf_lex_prod wf_less_than)
next
  case (2 c s pos)
  then show ?case by (simp add: unexplored_mark)
next
  case (3 c s p ps)
  show ?case by simp
next
  case (4 c s p ps)
  then show ?case
    using unexplored_mono_dom [of c s p] by (auto simp: le_less)
qed

declare open_cell.simps [simp del]

lemma open_cell_mono:
  "explored (button_at s q) \<Longrightarrow> explored (button_at (open_cell c s pos) q)"
  "explored (button_at s q) \<Longrightarrow> explored (button_at (open_cells c s ps) q)"
proof (induction c s pos and c s ps rule: open_cell_open_cells.induct)
  case (1 c s pos)
  then show ?case
    by (simp add: open_cell.simps explored_mark_explored explored_set_label
        explored_set_number explored_detonate explored_win_check)
next
  case (2 c s)
  then show ?case by simp
next
  case (3 c s p ps)
  then show ?case by simp
qed

text \<open>
  The number of calls of \<open>open_cell\<close> that one call makes, itself included: the body of
  \<open>open_cell\<close> with every effect left out and one counted for each entry. It follows
  the recursion of \<open>open_cell\<close> and measures it; the source has no such counter.
\<close>

function open_cell_calls :: "cfg \<Rightarrow> grid \<Rightarrow> Position \<Rightarrow> nat"
  and open_cells_calls :: "cfg \<Rightarrow> grid \<Rightarrow> Position list \<Rightarrow> nat" where
  "open_cell_calls c s pos =
     1 + (if \<not> in_grid c pos then 0
          else if explored (button_at s pos) then 0
          else if pos \<in> mines s then 0
          else if count_mines_near (mines s) pos = 0
          then open_cells_calls c
                 (set_button (mark_explored s pos) pos
                    ((button_at (mark_explored s pos) pos)\<lparr>label := CHAR_EMPTY\<rparr>))
                 (adjacent c pos)
          else 0)"
| "open_cells_calls c s [] = 0"
| "open_cells_calls c s (p # ps) = open_cell_calls c s p + open_cells_calls c (open_cell c s p) ps"
  by pat_completeness auto

lemma unexplored_mono:
  "card (unexplored c (open_cell c s pos)) \<le> card (unexplored c s)"
  by (rule card_mono [OF finite_unexplored]) (auto simp: unexplored_def dest: open_cell_mono(1))

termination open_cell_calls
proof (relation "inv_image (less_than <*lex*> less_than)
    (\<lambda>x. case x of Inl (c, s, pos) \<Rightarrow> (card (unexplored c s), 0)
                 | Inr (c, s, ps) \<Rightarrow> (card (unexplored c s), Suc (length ps)))", goal_cases)
  case 1
  show ?case by (intro wf_inv_image wf_lex_prod wf_less_than)
next
  case (2 c s pos)
  then show ?case by (simp add: unexplored_mark)
next
  case (3 c s p ps)
  show ?case by simp
next
  case (4 c s p ps)
  then show ?case
    using unexplored_mono [of c s p] by (auto simp: le_less)
qed

declare open_cell_calls.simps [simp del]

section \<open>Selecting a cell\<close>

text \<open>
  \<open>MineGrid.set_current_cell\<close>; the call of \<open>focus()\<close> moves the keyboard focus of the
  terminal and changes no attribute of the model.
\<close>

definition set_current_cell :: "grid \<Rightarrow> Position \<Rightarrow> grid" where
  "set_current_cell s v =
     (let s1 = set_button s (current_cell s) ((button_at s (current_cell s))\<lparr>can_focus := False\<rparr>);
          s2 = s1\<lparr>current_cell := v\<rparr>
      in set_button s2 (current_cell s2) ((button_at s2 (current_cell s2))\<lparr>can_focus := True\<rparr>))"

text \<open>\<open>MineGrid.flag_cell\<close>.\<close>

definition flag_cell :: "grid \<Rightarrow> Position \<Rightarrow> grid" where
  "flag_cell s pos =
     set_button
       (s\<lparr>mines_flagged := mines_flagged s + (if \<not> flagged (button_at s pos) then 1 else - 1)\<rparr>)
       pos (toggle_flagged (button_at s pos))"

text \<open>
  \<open>MineGrid.handle_selected\<close>; the event carries the button, here its position, and
  the action.
\<close>

definition handle_selected :: "cfg \<Rightarrow> grid \<Rightarrow> Position \<Rightarrow> SelectAction \<Rightarrow> grid" where
  "handle_selected c s pos action =
     (let s1 = (if pos \<noteq> current_cell s then set_current_cell s pos else s)
      in if action = OPEN \<and> flagged (button_at s1 pos) = False then open_cell c s1 pos
         else if action = FLAG \<and> explored (button_at s1 pos) = False then flag_cell s1 pos
         else s1)"

section \<open>The end of a game, and a new one\<close>

text \<open>
  \<open>MineGrid.reveal_mines\<close>. The loop runs over the set of mines and changes the button
  of each mine only, so its result does not depend on the order in which the set is
  enumerated: every button is given by its own case.
\<close>

definition reveal_mines :: "grid \<Rightarrow> bool \<Rightarrow> grid" where
  "reveal_mines s won =
     s\<lparr>buttons := (\<lambda>p.
         if p \<in> mines s
         then (if won
               then (if \<not> flagged (button_at s p) then toggle_flagged (button_at s p)
                     else button_at s p)
               else explode (button_at s p))
         else button_at s p)\<rparr>"

text \<open>\<open>MineGrid.end_game\<close>, the handler of \<open>GameEnd\<close>.\<close>

definition end_game :: "grid \<Rightarrow> GameEnd \<Rightarrow> grid" where
  "end_game s event = reveal_mines (s\<lparr>disabled := True\<rparr>) (win event)"

text \<open>
  The state of a \<open>MineGrid\<close> once it is mounted: the class attributes, every button as
  \<open>MineButton.__init__\<close> leaves it (it calls \<open>reset\<close>), the mines that \<open>__init__\<close>
  generates from the sample \<open>xs\<close>, and \<open>on_mount\<close>.
\<close>

definition init_grid :: "cfg \<Rightarrow> int list \<Rightarrow> grid" where
  "init_grid c xs =
     set_current_cell
       \<lparr>total_explored = 0, mines_flagged = 0, current_cell = Position 0 0,
        buttons = (\<lambda>p. button_reset), mines = generate_mines c xs,
        disabled = False, posted = []\<rparr>
       (Position 0 0)"

text \<open>\<open>MineGrid.reset\<close>, with the sample \<open>xs\<close> that \<open>generate_mines\<close> draws.\<close>

definition reset :: "cfg \<Rightarrow> grid \<Rightarrow> int list \<Rightarrow> grid" where
  "reset c s xs =
     ((set_current_cell
        (s\<lparr>total_explored := 0, mines_flagged := 0, buttons := (\<lambda>p. button_reset)\<rparr>)
        (Position 0 0))
       \<lparr>mines := generate_mines c xs, disabled := False\<rparr>)"

section \<open>Boards, and the notions that the properties are stated with\<close>

text \<open>The board of three rows and three columns with one mine.\<close>

definition c3 :: cfg where
  "c3 = \<lparr>GRID_WIDTH = 3, GRID_HEIGHT = 3, MINES_AMOUNT = 1\<rparr>"

text \<open>
  A sample of 40 flattened indices of the 16 by 16 board: the first two rows, six cells
  of the third, and the cells (13,15) and (15,13), which leave the corner (15,15) with no
  mine near it and its three neighbours with one or two.
\<close>

definition std_sample :: "int list" where
  "std_sample = [0 .. 37] @ [223, 253]"

text \<open>The set of the positions whose button is explored.\<close>

definition explored_cells :: "grid \<Rightarrow> Position set" where
  "explored_cells s = {q. explored (button_at s q)}"

text \<open>The messages that are in the queue of \<open>s'\<close> after those of \<open>s\<close>.\<close>

definition new_posted :: "grid \<Rightarrow> grid \<Rightarrow> GameEnd list" where
  "new_posted s s' = drop (length (posted s)) (posted s')"

text \<open>
  The adjacency count as the specification words it: the positions of rows
  \<open>row-1..row+1\<close> and columns \<open>col-1..col+1\<close>, the position itself excluded, clipped
  to the bounds of the board; and the number of them that are mines.
\<close>

definition neighbours8 :: "cfg \<Rightarrow> Position \<Rightarrow> Position list" where
  "neighbours8 c pos =
     filter (\<lambda>q. q \<noteq> pos \<and> in_grid c q)
       (concat (map (\<lambda>i. map (\<lambda>j. Position i j) [col pos - 1, col pos, col pos + 1])
                  [row pos - 1, row pos, row pos + 1]))"

definition adjacent_mine_count :: "cfg \<Rightarrow> Position set \<Rightarrow> Position \<Rightarrow> int" where
  "adjacent_mine_count c ms pos = int (length (filter (\<lambda>q. q \<in> ms) (neighbours8 c pos)))"

text \<open>
  The contiguous zero-count region of a position, in the words of the specification:
  the position itself, and every bounds-clipped neighbour (\<open>neighbours8\<close>) of a cell of
  the region that is no mine and whose adjacency count (\<open>adjacent_mine_count\<close>) is 0.
\<close>

inductive_set zero_region :: "cfg \<Rightarrow> Position set \<Rightarrow> Position \<Rightarrow> Position set"
  for c :: cfg and ms :: "Position set" and pos :: Position where
  start: "pos \<in> zero_region c ms pos"
| step: "q \<in> zero_region c ms pos \<Longrightarrow> q \<notin> ms \<Longrightarrow> adjacent_mine_count c ms q = 0 \<Longrightarrow>
      r \<in> set (neighbours8 c q) \<Longrightarrow> r \<in> zero_region c ms pos"

code_pred zero_regionp .

text \<open>
  Every explored cell that is no mine and whose adjacency count is 0 has its
  bounds-clipped neighbours explored: the state between two selections, when no flood
  is under way.
\<close>

definition flood_done :: "cfg \<Rightarrow> grid \<Rightarrow> bool" where
  "flood_done c s \<longleftrightarrow>
     (\<forall>q \<in> explored_cells s. q \<notin> mines s \<and> adjacent_mine_count c (mines s) q = 0
         \<longrightarrow> set (neighbours8 c q) \<subseteq> explored_cells s)"

text \<open>The board of five rows and five columns with two mines.\<close>

definition c5 :: cfg where
  "c5 = \<lparr>GRID_WIDTH = 5, GRID_HEIGHT = 5, MINES_AMOUNT = 2\<rparr>"

text \<open>
  The state of a game that has not ended: the board has cells, the mines are
  \<open>MINES_AMOUNT\<close> cells of the grid, \<open>total_explored\<close> counts the explored cells, no
  mine is explored and fewer than \<open>GRID_HEIGHT * GRID_WIDTH - MINES_AMOUNT\<close> cells are.
\<close>

definition playing :: "cfg \<Rightarrow> grid \<Rightarrow> bool" where
  "playing c s \<longleftrightarrow>
     0 < GRID_HEIGHT c \<and> 0 < GRID_WIDTH c
     \<and> mines s \<subseteq> cells c \<and> int (card (mines s)) = MINES_AMOUNT c
     \<and> explored_cells s \<subseteq> cells c \<and> total_explored s = int (card (explored_cells s))
     \<and> explored_cells s \<inter> mines s = {}
     \<and> total_explored s < GRID_HEIGHT c * GRID_WIDTH c - MINES_AMOUNT c"

section \<open>What a call of \<open>open_cell\<close> changes\<close>

lemmas prim_defs = mark_explored_def set_button_def button_at_def detonate_def win_check_def
  post_message_def set_number_def

lemma open_cell_frame:
  "mines (open_cell c s pos) = mines s \<and> mines_flagged (open_cell c s pos) = mines_flagged s
   \<and> current_cell (open_cell c s pos) = current_cell s \<and> disabled (open_cell c s pos) = disabled s
   \<and> (\<forall>q. flagged (button_at (open_cell c s pos) q) = flagged (button_at s q))
   \<and> (\<forall>q. can_focus (button_at (open_cell c s pos) q) = can_focus (button_at s q))"
  "mines (open_cells c s ps) = mines s \<and> mines_flagged (open_cells c s ps) = mines_flagged s
   \<and> current_cell (open_cells c s ps) = current_cell s \<and> disabled (open_cells c s ps) = disabled s
   \<and> (\<forall>q. flagged (button_at (open_cells c s ps) q) = flagged (button_at s q))
   \<and> (\<forall>q. can_focus (button_at (open_cells c s ps) q) = can_focus (button_at s q))"
proof (induction c s pos and c s ps rule: open_cell_open_cells.induct)
  case (1 c s pos)
  then show ?case
    by (simp add: open_cell.simps [of c s pos] prim_defs)
next
  case (2 c s)
  show ?case by simp
next
  case (3 c s p ps)
  then show ?case by simp
qed

lemma open_cell_new_in_grid:
  "explored (button_at (open_cell c s pos) q) \<Longrightarrow> \<not> explored (button_at s q) \<Longrightarrow> in_grid c q"
  "explored (button_at (open_cells c s ps) q) \<Longrightarrow> \<not> explored (button_at s q) \<Longrightarrow> in_grid c q"
proof (induction c s pos and c s ps rule: open_cell_open_cells.induct)
  case (1 c s pos)
  then show ?case
    by (auto simp: open_cell.simps [of c s pos] explored_win_check explored_detonate
        explored_set_number explored_set_label explored_mark_explored split: if_splits)
next
  case (2 c s)
  then show ?case by simp
next
  case (3 c s p ps)
  then show ?case by (cases "explored (button_at (open_cell c s p) q)") auto
qed

lemma open_cell_explores:
  "in_grid c pos \<Longrightarrow> explored (button_at (open_cell c s pos) pos)"
  "\<forall>p \<in> set ps. in_grid c p \<Longrightarrow> \<forall>p \<in> set ps. explored (button_at (open_cells c s ps) p)"
proof (induction c s pos and c s ps rule: open_cell_open_cells.induct)
  case (1 c s pos)
  have "explored (button_at (open_cells c s' ps) pos)" if "explored (button_at s' pos)" for s' ps
    using that by (rule open_cell_mono(2))
  with 1(2) show ?case
    by (simp add: open_cell.simps [of c s pos] explored_win_check explored_detonate
        explored_set_number explored_set_label explored_mark_explored)
next
  case (2 c s)
  then show ?case by simp
next
  case (3 c s p ps)
  then show ?case by (simp add: open_cell_mono(2))
qed

section \<open>Evaluating the functions on a given board\<close>

lemma upto3: "[i - 1 .. i + 1] = [i - 1, i, i + 1]"
  by (simp add: upto_rec1)

lemma count_mines_near_eq:
  "count_mines_near ms pos =
     int (length (filter (\<lambda>p. p \<in> ms)
       [Position i j. i \<leftarrow> [row pos - 1, row pos, row pos + 1], j \<leftarrow> [col pos - 1, col pos, col pos + 1]]))"
  by (simp add: count_mines_near_def upto3)

lemmas eval_defs = c3_def init_grid_def set_current_cell_def set_button_def button_at_def
  button_reset_def generate_mines_def handle_selected_def open_cell.simps in_grid_def
  mark_explored_def detonate_def win_check_def post_message_def count_mines_near_eq adjacent_def
  set_number_def NUMBER_COLORS_def upto.simps Let_def flag_cell_def toggle_flagged_def

section \<open>Generating the mines\<close>

lemma flat_index_inj:
  assumes "0 < (w::int)"
  shows "inj_on (\<lambda>x. Position (x div w) (x mod w)) A"
proof (rule inj_onI)
  fix x y assume "Position (x div w) (x mod w) = Position (y div w) (y mod w)"
  then have "x div w = y div w" "x mod w = y mod w" by simp_all
  then show "x = y" by (metis mult_div_mod_eq)
qed

lemma flat_index_in_grid:
  assumes "0 < GRID_WIDTH c" "0 \<le> x" "x < GRID_HEIGHT c * GRID_WIDTH c"
  shows "in_grid c (Position (x div GRID_WIDTH c) (x mod GRID_WIDTH c))"
proof -
  have "x div GRID_WIDTH c * GRID_WIDTH c + x mod GRID_WIDTH c = x"
    by (rule div_mult_mod_eq)
  moreover have "0 \<le> x mod GRID_WIDTH c"
    using assms(1) by simp
  ultimately have "x div GRID_WIDTH c * GRID_WIDTH c < GRID_HEIGHT c * GRID_WIDTH c"
    using assms(3) by linarith
  then have "x div GRID_WIDTH c < GRID_HEIGHT c"
    using assms(1) by (simp add: mult_less_cancel_right)
  moreover have "0 \<le> x div GRID_WIDTH c"
    using assms by (simp add: pos_imp_zdiv_nonneg_iff)
  ultimately show ?thesis
    using assms by (simp add: in_grid_def)
qed

lemma generate_mines_sample:
  assumes "is_sample (GRID_HEIGHT c * GRID_WIDTH c) amount xs" and "0 < GRID_WIDTH c"
  shows "int (card (generate_mines c xs)) = amount \<and> (\<forall>p \<in> generate_mines c xs. in_grid c p)"
proof -
  from assms(1) have d: "distinct xs" and l: "int (length xs) = amount"
    and r: "\<forall>x \<in> set xs. 0 \<le> x \<and> x < GRID_HEIGHT c * GRID_WIDTH c"
    by (simp_all add: is_sample_def)
  have "card (generate_mines c xs) = card (set xs)"
    unfolding generate_mines_def set_map
    by (rule card_image) (rule flat_index_inj [OF assms(2)])
  also have "\<dots> = length xs"
    using d by (rule distinct_card)
  finally have "int (card (generate_mines c xs)) = amount"
    using l by simp
  moreover have "\<forall>p \<in> generate_mines c xs. in_grid c p"
    using r by (auto simp: generate_mines_def intro: flat_index_in_grid [OF assms(2)])
  ultimately show ?thesis by simp
qed

section \<open>Counting the mines near a cell\<close>

lemma filter_mines_clip:
  assumes "\<forall>m \<in> ms. in_grid c m" and "pos \<notin> ms"
  shows "filter (\<lambda>q. q \<in> ms) (filter (\<lambda>q. q \<noteq> pos \<and> in_grid c q) ws) = filter (\<lambda>q. q \<in> ms) ws"
proof -
  have "(q \<noteq> pos \<and> in_grid c q) \<and> q \<in> ms \<longleftrightarrow> q \<in> ms" for q
    using assms by blast
  then show ?thesis by (simp only: filter_filter)
qed

lemma count_mines_near_spec:
  assumes "\<forall>m \<in> ms. in_grid c m" and "pos \<notin> ms"
  shows "count_mines_near ms pos = adjacent_mine_count c ms pos"
  unfolding count_mines_near_eq adjacent_mine_count_def neighbours8_def
  by (simp only: filter_mines_clip [OF assms])

section \<open>The cells that a call explores\<close>

lemma explored_cells_prims:
  "explored_cells (mark_explored s pos) = insert pos (explored_cells s)"
  "explored_cells (set_button s pos ((button_at s pos)\<lparr>label := l\<rparr>)) = explored_cells s"
  "explored_cells (set_button s pos (set_number (button_at s pos) n)) = explored_cells s"
  "explored_cells (detonate s pos) = explored_cells s"
  "explored_cells (win_check c s) = explored_cells s"
  by (auto simp: explored_cells_def explored_mark_explored explored_set_label
      explored_set_number explored_detonate explored_win_check)

lemma total_explored_prims:
  "total_explored (mark_explored s pos) = total_explored s + 1"
  "total_explored (set_button s pos b) = total_explored s"
  "total_explored (detonate s pos) = total_explored s"
  "total_explored (win_check c s) = total_explored s"
  by (simp_all add: prim_defs)

lemma explored_cells_mono:
  "explored_cells s \<subseteq> explored_cells (open_cell c s pos)"
  "explored_cells s \<subseteq> explored_cells (open_cells c s ps)"
  by (auto simp: explored_cells_def open_cell_mono)

lemma newly_explored_in_grid:
  "explored_cells (open_cell c s pos) - explored_cells s \<subseteq> cells c"
  "explored_cells (open_cells c s ps) - explored_cells s \<subseteq> cells c"
  by (auto simp: explored_cells_def cells_def dest: open_cell_new_in_grid)

lemma finite_newly_explored:
  "finite (explored_cells (open_cell c s pos) - explored_cells s)"
  "finite (explored_cells (open_cells c s ps) - explored_cells s)"
  by (rule finite_subset [OF _ finite_cells], rule newly_explored_in_grid)+

lemma card_newly_chain:
  assumes "A \<subseteq> B" "B \<subseteq> C" "finite (B - A)" "finite (C - B)"
  shows "card (C - A) = card (B - A) + card (C - B)"
proof -
  have "C - A = (B - A) \<union> (C - B)" using assms(1,2) by blast
  moreover have "(B - A) \<inter> (C - B) = {}" by blast
  ultimately show ?thesis using assms(3,4) by (simp add: card_Un_disjoint)
qed

lemma total_explored_open_cell:
  "total_explored (open_cell c s pos)
     = total_explored s + int (card (explored_cells (open_cell c s pos) - explored_cells s))"
  "total_explored (open_cells c s ps)
     = total_explored s + int (card (explored_cells (open_cells c s ps) - explored_cells s))"
proof (induction c s pos and c s ps rule: open_cell_open_cells.induct)
  case (1 c s pos)
  show ?case
  proof (cases "\<not> in_grid c pos \<or> explored (button_at s pos)")
    case True
    then show ?thesis by (auto simp: open_cell.simps [of c s pos])
  next
    case False
    then have ne: "pos \<notin> explored_cells s" by (simp add: explored_cells_def)
    have one: "card (insert pos (explored_cells s) - explored_cells s) = 1"
      using ne by (simp add: insert_Diff_if)
    show ?thesis
    proof (cases "pos \<in> mines s \<or> count_mines_near (mines s) pos \<noteq> 0")
      case True
      with False one show ?thesis
        by (auto simp: open_cell.simps [of c s pos] explored_cells_prims total_explored_prims)
    next
      case z: False
      let ?s1 = "set_button (mark_explored s pos) pos
                   ((button_at (mark_explored s pos) pos)\<lparr>label := CHAR_EMPTY\<rparr>)"
      let ?s2 = "open_cells c ?s1 (adjacent c pos)"
      have e1: "explored_cells ?s1 = insert pos (explored_cells s)"
        by (simp add: explored_cells_prims)
      have oc: "open_cell c s pos = win_check c ?s2"
        using False z by (simp add: open_cell.simps [of c s pos])
      have ih: "total_explored ?s2 = total_explored ?s1 + int (card (explored_cells ?s2 - explored_cells ?s1))"
        using 1 False z by simp
      have "card (explored_cells ?s2 - explored_cells s)
          = card (explored_cells ?s1 - explored_cells s) + card (explored_cells ?s2 - explored_cells ?s1)"
      proof (rule card_newly_chain)
        show "explored_cells s \<subseteq> explored_cells ?s1" using e1 by blast
        show "explored_cells ?s1 \<subseteq> explored_cells ?s2" by (rule explored_cells_mono(2))
        show "finite (explored_cells ?s1 - explored_cells s)"
          by (rule finite_subset [of _ "{pos}"]) (auto simp: e1)
        show "finite (explored_cells ?s2 - explored_cells ?s1)"
          by (rule finite_newly_explored(2))
      qed
      then show ?thesis
        using ih one by (simp add: oc explored_cells_prims total_explored_prims e1)
    qed
  qed
next
  case (2 c s)
  show ?case by simp
next
  case (3 c s p ps)
  have "card (explored_cells (open_cells c (open_cell c s p) ps) - explored_cells s)
        = card (explored_cells (open_cell c s p) - explored_cells s)
          + card (explored_cells (open_cells c (open_cell c s p) ps) - explored_cells (open_cell c s p))"
    by (rule card_newly_chain)
       (simp_all add: explored_cells_mono finite_newly_explored)
  with 3 show ?case by simp
qed

section \<open>The cells around a cell\<close>

lemma Position_in_product:
  "Position i j \<in> set (concat (map (\<lambda>i. map (\<lambda>j. Position i j) ys) xs)) \<longleftrightarrow>
     i \<in> set xs \<and> j \<in> set ys"
  by auto

lemma Position_in_adjacent:
  "Position i j \<in> set (adjacent c pos) \<longleftrightarrow>
     max 0 (row pos - 1) \<le> i \<and> i \<le> min (GRID_HEIGHT c) (row pos + 1 + 1) - 1
     \<and> max 0 (col pos - 1) \<le> j \<and> j \<le> min (GRID_WIDTH c) (col pos + 1 + 1) - 1"
proof -
  have "Position i j \<in> set (adjacent c pos) \<longleftrightarrow>
      i \<in> set [max 0 (row pos - 1) .. min (GRID_HEIGHT c) (row pos + 1 + 1) - 1]
      \<and> j \<in> set [max 0 (col pos - 1) .. min (GRID_WIDTH c) (col pos + 1 + 1) - 1]"
    unfolding adjacent_def by (rule Position_in_product)
  then show ?thesis by simp
qed

lemma set_adjacent:
  "set (adjacent c pos) =
     {q. in_grid c q \<and> row pos - 1 \<le> row q \<and> row q \<le> row pos + 1
         \<and> col pos - 1 \<le> col q \<and> col q \<le> col pos + 1}"
proof (rule set_eqI)
  fix q
  show "q \<in> set (adjacent c pos) \<longleftrightarrow> q \<in> {q. in_grid c q \<and> row pos - 1 \<le> row q \<and> row q \<le> row pos + 1
         \<and> col pos - 1 \<le> col q \<and> col q \<le> col pos + 1}"
    by (cases q) (auto simp: Position_in_adjacent in_grid_def)
qed

lemma count_zero_window:
  assumes "count_mines_near ms pos = 0"
    and "row pos - 1 \<le> row q" "row q \<le> row pos + 1" "col pos - 1 \<le> col q" "col q \<le> col pos + 1"
  shows "q \<notin> ms"
proof -
  let ?w = "concat (map (\<lambda>i. map (\<lambda>j. Position i j) [col pos - 1, col pos, col pos + 1])
                  [row pos - 1, row pos, row pos + 1])"
  have "filter (\<lambda>p. p \<in> ms) ?w = []"
    using assms(1) unfolding count_mines_near_eq by simp
  then have "\<forall>p \<in> set ?w. p \<notin> ms"
    by (simp only: filter_empty_conv) 
  moreover have "row q \<in> {row pos - 1, row pos, row pos + 1}" "col q \<in> {col pos - 1, col pos, col pos + 1}"
    using assms(2-5) by auto
  then have "q \<in> set ?w" by (cases q) auto
  ultimately show ?thesis by blast
qed

lemma count_zero_adjacent:
  "count_mines_near ms pos = 0 \<Longrightarrow> q \<in> set (adjacent c pos) \<Longrightarrow> q \<notin> ms"
  using count_zero_window [of ms pos q] by (auto simp: set_adjacent)

lemma length_adjacent: "length (adjacent c pos) \<le> 9"
proof -
  have u: "length [a..b] \<le> 3" if "b \<le> a + 2" for a b :: int
    using that by simp
  have "length (adjacent c pos)
      = length [max 0 (row pos - 1) .. min (GRID_HEIGHT c) (row pos + 1 + 1) - 1]
        * length [max 0 (col pos - 1) .. min (GRID_WIDTH c) (col pos + 1 + 1) - 1]"
    by (simp add: adjacent_def length_concat comp_def sum_list_triv)
  also have "\<dots> \<le> 3 * 3"
    by (rule mult_le_mono; rule u) auto
  finally show ?thesis by simp
qed

lemma newly_explored_mines:
  "(explored_cells (open_cell c s pos) - explored_cells s) \<inter> mines s \<subseteq> {pos}"
  "(explored_cells (open_cells c s ps) - explored_cells s) \<inter> mines s \<subseteq> set ps"
proof (induction c s pos and c s ps rule: open_cell_open_cells.induct)
  case (1 c s pos)
  show ?case
  proof (cases "in_grid c pos \<and> \<not> explored (button_at s pos) \<and> pos \<notin> mines s
      \<and> count_mines_near (mines s) pos = 0")
    case True
    let ?s1 = "set_button (mark_explored s pos) pos
                   ((button_at (mark_explored s pos) pos)\<lparr>label := CHAR_EMPTY\<rparr>)"
    have m: "mines ?s1 = mines s" by (simp add: prim_defs)
    have "(explored_cells (open_cells c ?s1 (adjacent c pos)) - explored_cells ?s1) \<inter> mines s
        \<subseteq> set (adjacent c pos)"
      using 1 True m by simp
    moreover have "set (adjacent c pos) \<inter> mines s = {}"
      using True count_zero_adjacent by blast
    ultimately show ?thesis
      using True by (auto simp: open_cell.simps [of c s pos] explored_cells_prims)
  next
    case False
    then show ?thesis
      by (auto simp: open_cell.simps [of c s pos] explored_cells_prims)
  qed
next
  case (2 c s)
  show ?case by simp
next
  case (3 c s p ps)
  have "mines (open_cell c s p) = mines s" by (simp add: open_cell_frame)
  with 3 show ?case by auto
qed

section \<open>The messages that a call posts\<close>

lemma total_explored_mono:
  "total_explored s \<le> total_explored (open_cell c s pos)"
  "total_explored s \<le> total_explored (open_cells c s ps)"
  by (simp_all add: total_explored_open_cell)

lemma posted_prims:
  "posted (mark_explored s pos) = posted s"
  "posted (set_button s pos b) = posted s"
  "posted (detonate s pos) = posted s @ [GameEnd False]"
  "posted (win_check c s) =
     (if GRID_HEIGHT c * GRID_WIDTH c - MINES_AMOUNT c \<le> total_explored s
      then posted s @ [GameEnd True] else posted s)"
  by (simp_all add: prim_defs)

lemma mines_prims:
  "mines (mark_explored s pos) = mines s"
  "mines (set_button s pos b) = mines s"
  by (simp_all add: prim_defs)

lemma open_cell_posted:
  "\<exists>ms. posted (open_cell c s pos) = posted s @ ms
     \<and> (GameEnd False \<in> set ms \<longleftrightarrow>
          in_grid c pos \<and> \<not> explored (button_at s pos) \<and> pos \<in> mines s)
     \<and> (GameEnd True \<in> set ms \<longrightarrow>
          GRID_HEIGHT c * GRID_WIDTH c - MINES_AMOUNT c \<le> total_explored (open_cell c s pos))
     \<and> (in_grid c pos \<and> \<not> explored (button_at s pos) \<and> pos \<notin> mines s
          \<and> GRID_HEIGHT c * GRID_WIDTH c - MINES_AMOUNT c \<le> total_explored (open_cell c s pos)
          \<longrightarrow> GameEnd True \<in> set ms)"
  "\<exists>ms. posted (open_cells c s ps) = posted s @ ms
     \<and> (GameEnd False \<in> set ms \<longrightarrow> (\<exists>p \<in> set ps. p \<in> mines s))
     \<and> (GameEnd True \<in> set ms \<longrightarrow>
          GRID_HEIGHT c * GRID_WIDTH c - MINES_AMOUNT c \<le> total_explored (open_cells c s ps))"
proof (induction c s pos and c s ps rule: open_cell_open_cells.induct)
  case (1 c s pos)
  show ?case
  proof (cases "in_grid c pos \<and> \<not> explored (button_at s pos) \<and> pos \<notin> mines s
      \<and> count_mines_near (mines s) pos = 0")
    case True
    let ?s1 = "set_button (mark_explored s pos) pos
                   ((button_at (mark_explored s pos) pos)\<lparr>label := CHAR_EMPTY\<rparr>)"
    let ?s2 = "open_cells c ?s1 (adjacent c pos)"
    from 1 True obtain ms where ms: "posted ?s2 = posted ?s1 @ ms"
      "GameEnd False \<in> set ms \<longrightarrow> (\<exists>p \<in> set (adjacent c pos). p \<in> mines ?s1)"
      "GameEnd True \<in> set ms \<longrightarrow> GRID_HEIGHT c * GRID_WIDTH c - MINES_AMOUNT c \<le> total_explored ?s2"
      by blast
    have nf: "GameEnd False \<notin> set ms"
      using ms(2) True count_zero_adjacent [of "mines s" pos _ c] by (auto simp: mines_prims)
    have oc: "open_cell c s pos = win_check c ?s2"
      using True by (simp add: open_cell.simps [of c s pos])
    show ?thesis
    proof (cases "GRID_HEIGHT c * GRID_WIDTH c - MINES_AMOUNT c \<le> total_explored ?s2")
      case w: True
      have "posted (open_cell c s pos) = posted s @ (ms @ [GameEnd True])"
        using w ms(1) by (simp add: oc posted_prims)
      moreover have "GameEnd False \<notin> set (ms @ [GameEnd True])" using nf by simp
      moreover have "GameEnd True \<in> set (ms @ [GameEnd True])" by simp
      moreover have "GRID_HEIGHT c * GRID_WIDTH c - MINES_AMOUNT c \<le> total_explored (open_cell c s pos)"
        using w by (simp add: oc total_explored_prims)
      ultimately show ?thesis using True by blast
    next
      case w: False
      have "posted (open_cell c s pos) = posted s @ ms"
        using w ms(1) by (simp add: oc posted_prims)
      moreover have "\<not> GRID_HEIGHT c * GRID_WIDTH c - MINES_AMOUNT c \<le> total_explored (open_cell c s pos)"
        using w by (simp add: oc total_explored_prims)
      moreover have "GameEnd True \<notin> set ms" using ms(3) w by blast
      ultimately show ?thesis using True nf by blast
    qed
  next
    case False
    then show ?thesis
      by (auto simp: open_cell.simps [of c s pos] posted_prims total_explored_prims)
  qed
next
  case (2 c s)
  show ?case by simp
next
  case (3 c s p ps)
  let ?s1 = "open_cell c s p"
  from 3(1) obtain m1 where m1: "posted ?s1 = posted s @ m1"
    "GameEnd False \<in> set m1 \<longleftrightarrow> in_grid c p \<and> \<not> explored (button_at s p) \<and> p \<in> mines s"
    "GameEnd True \<in> set m1 \<longrightarrow> GRID_HEIGHT c * GRID_WIDTH c - MINES_AMOUNT c \<le> total_explored ?s1"
    by blast
  from 3(2) obtain m2 where m2: "posted (open_cells c ?s1 ps) = posted ?s1 @ m2"
    "GameEnd False \<in> set m2 \<longrightarrow> (\<exists>p \<in> set ps. p \<in> mines ?s1)"
    "GameEnd True \<in> set m2 \<longrightarrow> GRID_HEIGHT c * GRID_WIDTH c - MINES_AMOUNT c \<le> total_explored (open_cells c ?s1 ps)"
    by blast
  have mm: "mines ?s1 = mines s" by (simp add: open_cell_frame)
  have le: "total_explored ?s1 \<le> total_explored (open_cells c ?s1 ps)"
    by (rule total_explored_mono)
  have "posted (open_cells c s (p # ps)) = posted s @ (m1 @ m2)"
    using m1(1) m2(1) by simp
  moreover have "GameEnd False \<in> set (m1 @ m2) \<longrightarrow> (\<exists>q \<in> set (p # ps). q \<in> mines s)"
    using m1(2) m2(2) mm by auto
  moreover have "GameEnd True \<in> set (m1 @ m2) \<longrightarrow>
      GRID_HEIGHT c * GRID_WIDTH c - MINES_AMOUNT c \<le> total_explored (open_cells c s (p # ps))"
    using m1(3) m2(3) le by auto
  ultimately show ?case by blast
qed

section \<open>Selecting and flagging: what stays\<close>

lemma set_current_cell_frame:
  "explored (button_at (set_current_cell s v) q) = explored (button_at s q)"
  "flagged (button_at (set_current_cell s v) q) = flagged (button_at s q)"
  "label (button_at (set_current_cell s v) q) = label (button_at s q)"
  "mines (set_current_cell s v) = mines s"
  "posted (set_current_cell s v) = posted s"
  "total_explored (set_current_cell s v) = total_explored s"
  "mines_flagged (set_current_cell s v) = mines_flagged s"
  "current_cell (set_current_cell s v) = v"
  by (simp_all add: set_current_cell_def set_button_def button_at_def Let_def)

lemma flag_cell_frame:
  "explored (button_at (flag_cell s pos) q) = explored (button_at s q)"
  "flagged (button_at (flag_cell s pos) q) = (if q = pos then \<not> flagged (button_at s q) else flagged (button_at s q))"
  "mines (flag_cell s pos) = mines s"
  "posted (flag_cell s pos) = posted s"
  "total_explored (flag_cell s pos) = total_explored s"
  "current_cell (flag_cell s pos) = current_cell s"
  by (simp_all add: flag_cell_def set_button_def button_at_def toggle_flagged_def)

lemma new_posted_open_cell:
  "posted (open_cell c s pos) = posted s @ new_posted s (open_cell c s pos)"
  using open_cell_posted(1) [of c s pos] by (auto simp: new_posted_def)

section \<open>The flood\<close>

lemma open_cells_explores_all:
  "p \<in> set ps \<Longrightarrow> in_grid c p \<Longrightarrow> p \<in> explored_cells (open_cells c s ps)"
proof (induction ps arbitrary: s)
  case Nil
  then show ?case by simp
next
  case (Cons a ps)
  show ?case
  proof (cases "p = a")
    case True
    have "a \<in> explored_cells (open_cell c s a)"
      using Cons.prems True by (simp add: explored_cells_def open_cell_explores(1))
    then show ?thesis
      using True explored_cells_mono(2) [of "open_cell c s a" c ps] by auto
  next
    case False
    with Cons show ?thesis by simp
  qed
qed

lemma adjacent_in_grid: "q \<in> set (adjacent c pos) \<Longrightarrow> in_grid c q"
  by (simp add: set_adjacent)

lemma flood_closed:
  "\<forall>q \<in> explored_cells (open_cell c s pos) - explored_cells s.
     q \<notin> mines s \<and> count_mines_near (mines s) q = 0
       \<longrightarrow> set (adjacent c q) \<subseteq> explored_cells (open_cell c s pos)"
  "\<forall>q \<in> explored_cells (open_cells c s ps) - explored_cells s.
     q \<notin> mines s \<and> count_mines_near (mines s) q = 0
       \<longrightarrow> set (adjacent c q) \<subseteq> explored_cells (open_cells c s ps)"
proof (induction c s pos and c s ps rule: open_cell_open_cells.induct)
  case (1 c s pos)
  show ?case
  proof (cases "in_grid c pos \<and> \<not> explored (button_at s pos) \<and> pos \<notin> mines s
      \<and> count_mines_near (mines s) pos = 0")
    case True
    let ?s1 = "set_button (mark_explored s pos) pos
                   ((button_at (mark_explored s pos) pos)\<lparr>label := CHAR_EMPTY\<rparr>)"
    let ?s2 = "open_cells c ?s1 (adjacent c pos)"
    have oc: "explored_cells (open_cell c s pos) = explored_cells ?s2"
      using True by (simp add: open_cell.simps [of c s pos] explored_cells_prims)
    have e1: "explored_cells ?s1 = insert pos (explored_cells s)"
      by (simp add: explored_cells_prims)
    have ih: "\<forall>q \<in> explored_cells ?s2 - explored_cells ?s1.
       q \<notin> mines s \<and> count_mines_near (mines s) q = 0 \<longrightarrow> set (adjacent c q) \<subseteq> explored_cells ?s2"
      using 1 True by (simp add: mines_prims)
    have adj: "set (adjacent c pos) \<subseteq> explored_cells ?s2"
      by (auto intro: open_cells_explores_all adjacent_in_grid)
    show ?thesis
      unfolding oc
    proof
      fix q assume q: "q \<in> explored_cells ?s2 - explored_cells s"
      show "q \<notin> mines s \<and> count_mines_near (mines s) q = 0 \<longrightarrow>
          set (adjacent c q) \<subseteq> explored_cells ?s2"
      proof (cases "q = pos")
        case True
        with adj show ?thesis by simp
      next
        case False
        with q e1 have "q \<in> explored_cells ?s2 - explored_cells ?s1" by simp
        with ih show ?thesis by (rule bspec)
      qed
    qed
  next
    case False
    then show ?thesis
      by (auto simp: open_cell.simps [of c s pos] explored_cells_prims)
  qed
next
  case (2 c s)
  show ?case by simp
next
  case (3 c s p ps)
  let ?s1 = "open_cell c s p"
  have mm: "mines ?s1 = mines s" by (simp add: open_cell_frame)
  have sub: "explored_cells ?s1 \<subseteq> explored_cells (open_cells c ?s1 ps)"
    by (rule explored_cells_mono)
  show ?case
  proof
    fix q assume q: "q \<in> explored_cells (open_cells c s (p # ps)) - explored_cells s"
    show "q \<notin> mines s \<and> count_mines_near (mines s) q = 0 \<longrightarrow>
        set (adjacent c q) \<subseteq> explored_cells (open_cells c s (p # ps))"
    proof (cases "q \<in> explored_cells ?s1")
      case True
      with q 3(1) sub show ?thesis by auto
    next
      case False
      with q 3(2) mm show ?thesis by auto
    qed
  qed
qed

section \<open>The board of three rows and columns with its mine in the corner\<close>

lemma in_grid_c3:
  "in_grid c3 q \<longleftrightarrow> row q \<in> {0, 1, 2} \<and> col q \<in> {0, 1, 2}"
  by (auto simp: in_grid_def c3_def)

lemma c3_cells:
  assumes "in_grid c3 q" "q \<noteq> Position 0 0"
  shows "q \<in> set [Position 0 1, Position 0 2, Position 1 0, Position 1 1, Position 1 2,
      Position 2 0, Position 2 1, Position 2 2]"
proof (cases q)
  case (Position i j)
  with assms have "i \<in> {0, 1, 2}" "j \<in> {0, 1, 2}" "\<not> (i = 0 \<and> j = 0)"
    by (simp_all add: in_grid_c3)
  with Position show ?thesis by auto
qed

lemma c3_flood_cells:
  "explored (button_at (open_cell c3 (init_grid c3 [0]) (Position 2 2)) (Position 0 1))"
  "explored (button_at (open_cell c3 (init_grid c3 [0]) (Position 2 2)) (Position 0 2))"
  "explored (button_at (open_cell c3 (init_grid c3 [0]) (Position 2 2)) (Position 1 0))"
  "explored (button_at (open_cell c3 (init_grid c3 [0]) (Position 2 2)) (Position 1 1))"
  "explored (button_at (open_cell c3 (init_grid c3 [0]) (Position 2 2)) (Position 1 2))"
  "explored (button_at (open_cell c3 (init_grid c3 [0]) (Position 2 2)) (Position 2 0))"
  "explored (button_at (open_cell c3 (init_grid c3 [0]) (Position 2 2)) (Position 2 1))"
  "explored (button_at (open_cell c3 (init_grid c3 [0]) (Position 2 2)) (Position 2 2))"
  "\<not> explored (button_at (open_cell c3 (init_grid c3 [0]) (Position 2 2)) (Position 0 0))"
  by (simp_all add: eval_defs)

lemma c3_flood_explored:
  "explored (button_at (open_cell c3 (init_grid c3 [0]) (Position 2 2)) q)
     \<longleftrightarrow> in_grid c3 q \<and> q \<noteq> Position 0 0"
proof
  assume e: "explored (button_at (open_cell c3 (init_grid c3 [0]) (Position 2 2)) q)"
  have "\<not> explored (button_at (init_grid c3 [0]) q)"
    by (simp add: init_grid_def set_current_cell_def set_button_def button_at_def
        button_reset_def Let_def)
  with e have "in_grid c3 q" by (rule open_cell_new_in_grid(1))
  moreover from e c3_flood_cells(9) have "q \<noteq> Position 0 0" by auto
  ultimately show "in_grid c3 q \<and> q \<noteq> Position 0 0" by simp
next
  assume "in_grid c3 q \<and> q \<noteq> Position 0 0"
  then have "q \<in> set [Position 0 1, Position 0 2, Position 1 0, Position 1 1, Position 1 2,
      Position 2 0, Position 2 1, Position 2 2]"
    using c3_cells [of q] by blast
  with c3_flood_cells(1-8)
  show "explored (button_at (open_cell c3 (init_grid c3 [0]) (Position 2 2)) q)"
    by auto
qed

lemma c3_flood_counts:
  "total_explored (open_cell c3 (init_grid c3 [0]) (Position 2 2))
      = GRID_HEIGHT c3 * GRID_WIDTH c3 - MINES_AMOUNT c3"
  "GameEnd True \<in> set (posted (open_cell c3 (init_grid c3 [0]) (Position 2 2)))"
  "GameEnd False \<notin> set (posted (open_cell c3 (init_grid c3 [0]) (Position 2 2)))"
  by (simp_all add: eval_defs)

section \<open>The number of calls\<close>

lemma card_cells: "card (cells c) = nat (GRID_HEIGHT c) * nat (GRID_WIDTH c)"
proof -
  have "inj_on (\<lambda>(i, j). Position i j) A" for A
    by (auto simp: inj_on_def)
  then have "card (cells c) = card ({0..<GRID_HEIGHT c} \<times> {0..<GRID_WIDTH c})"
    unfolding cells_eq by (rule card_image)
  then show ?thesis by (simp add: card_cartesian_product)
qed

lemma open_cell_calls_bound:
  "open_cell_calls c s pos
     \<le> 1 + 9 * card (explored_cells (open_cell c s pos) - explored_cells s)"
  "open_cells_calls c s ps
     \<le> length ps + 9 * card (explored_cells (open_cells c s ps) - explored_cells s)"
proof (induction c s pos and c s ps rule: open_cell_calls_open_cells_calls.induct)
  case (1 c s pos)
  show ?case
  proof (cases "in_grid c pos \<and> \<not> explored (button_at s pos) \<and> pos \<notin> mines s
      \<and> count_mines_near (mines s) pos = 0")
    case True
    let ?s1 = "set_button (mark_explored s pos) pos
                   ((button_at (mark_explored s pos) pos)\<lparr>label := CHAR_EMPTY\<rparr>)"
    let ?s2 = "open_cells c ?s1 (adjacent c pos)"
    have e1: "explored_cells ?s1 = insert pos (explored_cells s)"
      by (simp add: explored_cells_prims)
    have ne: "pos \<notin> explored_cells s" using True by (simp add: explored_cells_def)
    have oc: "explored_cells (open_cell c s pos) = explored_cells ?s2"
      using True by (simp add: open_cell.simps [of c s pos] explored_cells_prims)
    have calls: "open_cell_calls c s pos = 1 + open_cells_calls c ?s1 (adjacent c pos)"
      using True by (simp add: open_cell_calls.simps [of c s pos])
    have ih: "open_cells_calls c ?s1 (adjacent c pos)
        \<le> length (adjacent c pos) + 9 * card (explored_cells ?s2 - explored_cells ?s1)"
      using 1 True by simp
    have "card (explored_cells ?s2 - explored_cells s)
          = card (explored_cells ?s1 - explored_cells s) + card (explored_cells ?s2 - explored_cells ?s1)"
    proof (rule card_newly_chain)
      show "explored_cells s \<subseteq> explored_cells ?s1" using e1 by blast
      show "explored_cells ?s1 \<subseteq> explored_cells ?s2" by (rule explored_cells_mono(2))
      show "finite (explored_cells ?s1 - explored_cells s)"
        by (rule finite_subset [of _ "{pos}"]) (auto simp: e1)
      show "finite (explored_cells ?s2 - explored_cells ?s1)"
        by (rule finite_newly_explored(2))
    qed
    moreover have "card (explored_cells ?s1 - explored_cells s) = 1"
      using ne by (simp add: e1 insert_Diff_if)
    ultimately have "card (explored_cells (open_cell c s pos) - explored_cells s)
        = 1 + card (explored_cells ?s2 - explored_cells ?s1)"
      by (simp add: oc)
    with ih length_adjacent [of c pos] show ?thesis
      by (simp add: calls)
  next
    case False
    then show ?thesis
      by (auto simp: open_cell_calls.simps [of c s pos])
  qed
next
  case (2 c s)
  show ?case by simp
next
  case (3 c s p ps)
  have "card (explored_cells (open_cells c (open_cell c s p) ps) - explored_cells s)
        = card (explored_cells (open_cell c s p) - explored_cells s)
          + card (explored_cells (open_cells c (open_cell c s p) ps) - explored_cells (open_cell c s p))"
    by (rule card_newly_chain)
       (simp_all add: explored_cells_mono finite_newly_explored)
  with 3 show ?case by simp
qed

lemma c3_calls: "open_cell_calls c3 (init_grid c3 [0]) (Position 2 2) = 25"
  by (simp add: eval_defs open_cell_calls.simps)

section \<open>A game on the standard board\<close>

lemma std_sample_ok:
  "is_sample (GRID_HEIGHT std_cfg * GRID_WIDTH std_cfg) (MINES_AMOUNT std_cfg) std_sample"
  by (simp add: is_sample_def std_sample_def std_cfg_def upto.simps)

lemma open_cell_increments:
  assumes "in_grid c pos" "\<not> explored (button_at s pos)"
  shows "total_explored s + 1 \<le> total_explored (open_cell c s pos)"
proof -
  have "pos \<in> explored_cells (open_cell c s pos) - explored_cells s"
    using assms by (simp add: explored_cells_def open_cell_explores(1))
  then have "0 < card (explored_cells (open_cell c s pos) - explored_cells s)"
    using finite_newly_explored(1) [of c s pos] by (auto simp: card_gt_0_iff)
  then show ?thesis
    by (simp add: total_explored_open_cell(1) [of c s pos])
qed

section \<open>A game that has not ended\<close>

lemma playing_init:
  assumes "is_sample (GRID_HEIGHT c * GRID_WIDTH c) (MINES_AMOUNT c) xs"
    and "0 < GRID_HEIGHT c" "0 < GRID_WIDTH c" "MINES_AMOUNT c < GRID_HEIGHT c * GRID_WIDTH c"
  shows "playing c (init_grid c xs)"
proof -
  have m: "mines (init_grid c xs) = generate_mines c xs"
    by (simp add: init_grid_def set_current_cell_def set_button_def Let_def)
  have e: "explored_cells (init_grid c xs) = {}"
    by (simp add: explored_cells_def init_grid_def set_current_cell_def set_button_def
        button_at_def button_reset_def Let_def)
  have t: "total_explored (init_grid c xs) = 0"
    by (simp add: init_grid_def set_current_cell_def set_button_def Let_def)
  have g: "int (card (generate_mines c xs)) = MINES_AMOUNT c"
    "\<forall>p \<in> generate_mines c xs. in_grid c p"
    using generate_mines_sample [OF assms(1,3)] by simp_all
  show ?thesis
    using assms(2-4) g by (auto simp: playing_def m e t cells_def)
qed

lemma open_cell_counts_explored:
  assumes "explored_cells s \<subseteq> cells c" "total_explored s = int (card (explored_cells s))"
  shows "explored_cells (open_cell c s pos) \<subseteq> cells c
     \<and> total_explored (open_cell c s pos) = int (card (explored_cells (open_cell c s pos)))"
proof -
  let ?E = "explored_cells s" and ?E' = "explored_cells (open_cell c s pos)"
  have sub: "?E \<subseteq> ?E'" by (rule explored_cells_mono)
  have new: "?E' - ?E \<subseteq> cells c" by (rule newly_explored_in_grid)
  have fin: "finite ?E" by (rule finite_subset [OF assms(1) finite_cells])
  have "card (?E' - {}) = card (?E - {}) + card (?E' - ?E)"
    by (rule card_newly_chain) (simp_all add: sub fin finite_newly_explored)
  then have "int (card ?E') = total_explored s + int (card (?E' - ?E))"
    using assms(2) by simp
  moreover have "?E' \<subseteq> cells c" using assms(1) new by blast
  ultimately show ?thesis
    by (simp add: total_explored_open_cell(1) [of c s pos])
qed

lemma safe_cells_bound:
  assumes "0 < GRID_HEIGHT c" "0 < GRID_WIDTH c" "ms \<subseteq> cells c" "E \<subseteq> cells c" "E \<inter> ms = {}"
  shows "int (card E) \<le> GRID_HEIGHT c * GRID_WIDTH c - int (card ms)"
proof -
  have "card (E \<union> ms) \<le> card (cells c)"
    using assms(3,4) by (intro card_mono finite_cells) blast
  moreover have "card (E \<union> ms) = card E + card ms"
    using assms(3-5) by (intro card_Un_disjoint finite_subset [OF _ finite_cells])
  moreover have "int (card (cells c)) = GRID_HEIGHT c * GRID_WIDTH c"
    using assms(1,2) by (simp add: card_cells)
  ultimately show ?thesis by linarith
qed

lemma open_cell_win:
  assumes "playing c t" and "in_grid c pos"
  shows "(GameEnd True \<in> set (new_posted t (open_cell c t pos)) \<longleftrightarrow>
           total_explored (open_cell c t pos) = GRID_HEIGHT c * GRID_WIDTH c - MINES_AMOUNT c
           \<and> explored_cells (open_cell c t pos) \<inter> mines (open_cell c t pos) = {})
       \<and> (GameEnd True \<notin> set (new_posted t (open_cell c t pos))
            \<and> GameEnd False \<notin> set (new_posted t (open_cell c t pos))
           \<longrightarrow> playing c (open_cell c t pos))"
proof -
  let ?s' = "open_cell c t pos"
  let ?thr = "GRID_HEIGHT c * GRID_WIDTH c - MINES_AMOUNT c"
  from assms(1) have p: "0 < GRID_HEIGHT c" "0 < GRID_WIDTH c" "mines t \<subseteq> cells c"
    "int (card (mines t)) = MINES_AMOUNT c" "explored_cells t \<subseteq> cells c"
    "total_explored t = int (card (explored_cells t))" "explored_cells t \<inter> mines t = {}"
    "total_explored t < ?thr"
    by (simp_all add: playing_def)
  have mm: "mines ?s' = mines t" by (simp add: open_cell_frame)
  have cnt: "explored_cells ?s' \<subseteq> cells c" "total_explored ?s' = int (card (explored_cells ?s'))"
    using open_cell_counts_explored [OF p(5,6), of pos] by simp_all
  from open_cell_posted(1) [of c t pos] obtain ms where ms:
    "posted ?s' = posted t @ ms"
    "GameEnd False \<in> set ms \<longleftrightarrow> in_grid c pos \<and> \<not> explored (button_at t pos) \<and> pos \<in> mines t"
    "GameEnd True \<in> set ms \<longrightarrow> ?thr \<le> total_explored ?s'"
    "in_grid c pos \<and> \<not> explored (button_at t pos) \<and> pos \<notin> mines t \<and> ?thr \<le> total_explored ?s'
       \<longrightarrow> GameEnd True \<in> set ms"
    by blast
  have np: "new_posted t ?s' = ms" by (simp add: new_posted_def ms(1))
  show ?thesis
  proof (cases "explored (button_at t pos)")
    case True
    then have "?s' = t" by (simp add: open_cell.simps [of c t pos])
    then show ?thesis using p(8) assms(1) by (simp add: new_posted_def)
  next
    case unexplored: False
    show ?thesis
    proof (cases "pos \<in> mines t")
      case True
      then have "?s' = detonate (mark_explored t pos) pos"
        using unexplored assms(2) by (simp add: open_cell.simps [of c t pos])
      then have "new_posted t ?s' = [GameEnd False]" "pos \<in> explored_cells ?s'"
        by (simp_all add: new_posted_def posted_prims explored_cells_prims)
      with True mm show ?thesis by auto
    next
      case False
      have "(explored_cells ?s' - explored_cells t) \<inter> mines t \<subseteq> {pos}"
        by (rule newly_explored_mines(1))
      with False p(7) have safe: "explored_cells ?s' \<inter> mines t = {}" by blast
      have "int (card (explored_cells ?s')) \<le> GRID_HEIGHT c * GRID_WIDTH c - int (card (mines t))"
        by (rule safe_cells_bound [OF p(1,2,3) cnt(1) safe])
      then have le: "total_explored ?s' \<le> ?thr" using cnt(2) p(4) by simp
      have win: "GameEnd True \<in> set ms \<longleftrightarrow> ?thr \<le> total_explored ?s'"
        using ms(3,4) assms(2) unexplored False by blast
      have "playing c ?s'" if "GameEnd True \<notin> set ms"
        using that win le p cnt safe by (simp add: playing_def mm)
      with win le safe show ?thesis by (auto simp: np mm)
    qed
  qed
qed

section \<open>The region that a flood clears\<close>

lemma Position_in_neighbours8:
  "Position i j \<in> set (neighbours8 c pos) \<longleftrightarrow>
     Position i j \<noteq> pos \<and> in_grid c (Position i j)
     \<and> i \<in> set [row pos - 1, row pos, row pos + 1]
     \<and> j \<in> set [col pos - 1, col pos, col pos + 1]"
  unfolding neighbours8_def set_filter mem_Collect_eq Position_in_product by blast

lemma set_neighbours8:
  "set (neighbours8 c pos) =
     {q. q \<noteq> pos \<and> in_grid c q \<and> row pos - 1 \<le> row q \<and> row q \<le> row pos + 1
         \<and> col pos - 1 \<le> col q \<and> col q \<le> col pos + 1}"
proof (rule set_eqI)
  fix q
  show "q \<in> set (neighbours8 c pos) \<longleftrightarrow> q \<in> {q. q \<noteq> pos \<and> in_grid c q
         \<and> row pos - 1 \<le> row q \<and> row q \<le> row pos + 1
         \<and> col pos - 1 \<le> col q \<and> col q \<le> col pos + 1}"
    by (cases q) (auto simp: Position_in_neighbours8)
qed

lemma neighbours8_adjacent:
  "set (neighbours8 c pos) \<subseteq> set (adjacent c pos)"
  "set (adjacent c pos) \<subseteq> insert pos (set (neighbours8 c pos))"
  by (auto simp: set_neighbours8 set_adjacent)

lemma count_zero_spec:
  assumes "ms \<subseteq> cells c" and "q \<notin> ms"
  shows "count_mines_near ms q = adjacent_mine_count c ms q"
  by (rule count_mines_near_spec) (use assms in \<open>auto simp: cells_def\<close>)

lemma flood_done_init: "flood_done c (init_grid c xs)"
  by (simp add: flood_done_def explored_cells_def init_grid_def set_current_cell_def
      set_button_def button_at_def button_reset_def Let_def)

lemma flood_done_open_cell:
  assumes "mines s \<subseteq> cells c" and "flood_done c s"
  shows "flood_done c (open_cell c s pos)"
  unfolding flood_done_def
proof
  fix q assume q: "q \<in> explored_cells (open_cell c s pos)"
  have mm: "mines (open_cell c s pos) = mines s" by (simp add: open_cell_frame)
  show "q \<notin> mines (open_cell c s pos) \<and> adjacent_mine_count c (mines (open_cell c s pos)) q = 0
      \<longrightarrow> set (neighbours8 c q) \<subseteq> explored_cells (open_cell c s pos)"
  proof (cases "q \<in> explored_cells s")
    case True
    with assms(2) explored_cells_mono(1) [of s c pos] show ?thesis
      unfolding flood_done_def mm by blast
  next
    case False
    show ?thesis
      unfolding mm
    proof
      assume z: "q \<notin> mines s \<and> adjacent_mine_count c (mines s) q = 0"
      then have "count_mines_near (mines s) q = 0"
        using count_zero_spec [OF assms(1), of q] by simp
      with z q False flood_closed(1) [of c s pos]
      have "set (adjacent c q) \<subseteq> explored_cells (open_cell c s pos)" by blast
      with neighbours8_adjacent(1) [of c q]
      show "set (neighbours8 c q) \<subseteq> explored_cells (open_cell c s pos)" by blast
    qed
  qed
qed

lemma flood_done_other:
  "flood_done c (set_current_cell s v) = flood_done c s"
  "flood_done c (flag_cell s pos) = flood_done c s"
  by (simp_all add: flood_done_def explored_cells_def set_current_cell_frame flag_cell_frame)

lemma flood_done_handle_selected:
  "mines s \<subseteq> cells c \<Longrightarrow> flood_done c s \<Longrightarrow> flood_done c (handle_selected c s pos a)"
  by (simp add: handle_selected_def Let_def flood_done_other flood_done_open_cell
      set_current_cell_frame)

lemma zero_region_explored:
  assumes "in_grid c pos" and "mines s \<subseteq> cells c" and "flood_done c s"
  shows "q \<in> zero_region c (mines s) pos \<Longrightarrow> q \<in> explored_cells (open_cell c s pos)"
proof (induction rule: zero_region.induct)
  case start
  show ?case using assms(1) by (simp add: explored_cells_def open_cell_explores(1))
next
  case (step q r)
  show ?case
  proof (cases "q \<in> explored_cells s")
    case True
    with assms(3) step have "r \<in> explored_cells s"
      unfolding flood_done_def by blast
    with explored_cells_mono(1) [of s c pos] show ?thesis by blast
  next
    case False
    have "count_mines_near (mines s) q = 0"
      using count_zero_spec [OF assms(2), of q] step by simp
    with step False flood_closed(1) [of c s pos]
    have "set (adjacent c q) \<subseteq> explored_cells (open_cell c s pos)" by blast
    with neighbours8_adjacent(1) [of c q] step show ?thesis by blast
  qed
qed

lemma zero_region_trans:
  assumes "p \<in> zero_region c ms pos"
  shows "q \<in> zero_region c ms p \<Longrightarrow> q \<in> zero_region c ms pos"
proof (induction rule: zero_region.induct)
  case start
  show ?case by (rule assms)
next
  case (step q r)
  then show ?case by (blast intro: zero_region.step)
qed

lemma newly_explored_in_region:
  "mines s \<subseteq> cells c \<Longrightarrow>
     explored_cells (open_cell c s pos) - explored_cells s \<subseteq> zero_region c (mines s) pos"
  "mines s \<subseteq> cells c \<Longrightarrow>
     explored_cells (open_cells c s ps) - explored_cells s
       \<subseteq> (\<Union>p \<in> set ps. zero_region c (mines s) p)"
proof (induction c s pos and c s ps rule: open_cell_open_cells.induct)
  case (1 c s pos)
  show ?case
  proof (cases "in_grid c pos \<and> \<not> explored (button_at s pos) \<and> pos \<notin> mines s
      \<and> count_mines_near (mines s) pos = 0")
    case True
    let ?s1 = "set_button (mark_explored s pos) pos
                   ((button_at (mark_explored s pos) pos)\<lparr>label := CHAR_EMPTY\<rparr>)"
    let ?s2 = "open_cells c ?s1 (adjacent c pos)"
    have oc: "explored_cells (open_cell c s pos) = explored_cells ?s2"
      using True by (simp add: open_cell.simps [of c s pos] explored_cells_prims)
    have e1: "explored_cells ?s1 = insert pos (explored_cells s)"
      by (simp add: explored_cells_prims)
    have ih: "explored_cells ?s2 - explored_cells ?s1
        \<subseteq> (\<Union>p \<in> set (adjacent c pos). zero_region c (mines s) p)"
      using 1 True by (simp add: mines_prims)
    have z: "adjacent_mine_count c (mines s) pos = 0"
      using count_zero_spec [OF "1.prems", of pos] True by simp
    have "zero_region c (mines s) p \<subseteq> zero_region c (mines s) pos"
      if "p \<in> set (adjacent c pos)" for p
    proof (cases "p = pos")
      case True
      then show ?thesis by simp
    next
      case False
      with that neighbours8_adjacent(2) [of c pos] have "p \<in> set (neighbours8 c pos)" by blast
      with True z have "p \<in> zero_region c (mines s) pos"
        by (blast intro: zero_region.step zero_region.start)
      then show ?thesis by (blast intro: zero_region_trans)
    qed
    with ih have "explored_cells ?s2 - explored_cells ?s1 \<subseteq> zero_region c (mines s) pos"
      by blast
    then show ?thesis
      unfolding oc e1 using zero_region.start [of pos c "mines s"] by blast
  next
    case False
    then show ?thesis
      using zero_region.start [of pos c "mines s"]
      by (auto simp: open_cell.simps [of c s pos] explored_cells_prims)
  qed
next
  case (2 c s)
  show ?case by simp
next
  case (3 c s p ps)
  have mm: "mines (open_cell c s p) = mines s" by (simp add: open_cell_frame)
  from 3 mm have
    a: "explored_cells (open_cell c s p) - explored_cells s \<subseteq> zero_region c (mines s) p"
    and b: "explored_cells (open_cells c (open_cell c s p) ps) - explored_cells (open_cell c s p)
       \<subseteq> (\<Union>q \<in> set ps. zero_region c (mines s) q)"
    by simp_all
  show ?case
  proof
    fix q assume q: "q \<in> explored_cells (open_cells c s (p # ps)) - explored_cells s"
    show "q \<in> (\<Union>r \<in> set (p # ps). zero_region c (mines s) r)"
    proof (cases "q \<in> explored_cells (open_cell c s p)")
      case True
      with q a show ?thesis by auto
    next
      case False
      with q b show ?thesis by auto
    qed
  qed
qed

section \<open>The board of five rows and columns with mines in two corners\<close>

text \<open>
  The state after the flood is computed once, and the attributes of its buttons are
  read off it.
\<close>

lemma c5_eval:
  "(let S = open_cell c5 (init_grid c5 [0, 24]) (Position 2 2)
    in (list_all (\<lambda>q. explored (button_at S q))
        [Position 0 1, Position 0 2, Position 0 3, Position 0 4, Position 1 0,
         Position 1 1, Position 1 2, Position 1 3, Position 1 4, Position 2 0,
         Position 2 1, Position 2 2, Position 2 3, Position 2 4, Position 3 0,
         Position 3 1, Position 3 2, Position 3 3, Position 3 4, Position 4 0,
         Position 4 1, Position 4 2, Position 4 3],
        explored (button_at S (Position 0 0)), explored (button_at S (Position 4 4)),
        total_explored S, set (posted S)))
   = (True, False, False, 23, {GameEnd True})"
  by (simp add: eval_defs c5_def)

lemma c5_facts:
  "list_all (\<lambda>q. explored (button_at (open_cell c5 (init_grid c5 [0, 24]) (Position 2 2)) q))
      [Position 0 1, Position 0 2, Position 0 3, Position 0 4, Position 1 0, Position 1 1,
       Position 1 2, Position 1 3, Position 1 4, Position 2 0, Position 2 1, Position 2 2,
       Position 2 3, Position 2 4, Position 3 0, Position 3 1, Position 3 2, Position 3 3,
       Position 3 4, Position 4 0, Position 4 1, Position 4 2, Position 4 3]"
  "\<not> explored (button_at (open_cell c5 (init_grid c5 [0, 24]) (Position 2 2)) (Position 0 0))"
  "\<not> explored (button_at (open_cell c5 (init_grid c5 [0, 24]) (Position 2 2)) (Position 4 4))"
  "total_explored (open_cell c5 (init_grid c5 [0, 24]) (Position 2 2)) = 23"
  "set (posted (open_cell c5 (init_grid c5 [0, 24]) (Position 2 2))) = {GameEnd True}"
  using c5_eval by (simp_all add: Let_def)

lemma c5_mines: "mines (init_grid c5 [0, 24]) = {Position 0 0, Position 4 4}"
  by (simp add: init_grid_def set_current_cell_def set_button_def Let_def generate_mines_def
      c5_def)

lemma in_grid_c5:
  "in_grid c5 q \<longleftrightarrow> row q \<in> {0, 1, 2, 3, 4} \<and> col q \<in> {0, 1, 2, 3, 4}"
  by (auto simp: in_grid_def c5_def)

lemma c5_cells:
  assumes "in_grid c5 q" "q \<noteq> Position 0 0" "q \<noteq> Position 4 4"
  shows "q \<in> set
      [Position 0 1, Position 0 2, Position 0 3, Position 0 4, Position 1 0, Position 1 1,
       Position 1 2, Position 1 3, Position 1 4, Position 2 0, Position 2 1, Position 2 2,
       Position 2 3, Position 2 4, Position 3 0, Position 3 1, Position 3 2, Position 3 3,
       Position 3 4, Position 4 0, Position 4 1, Position 4 2, Position 4 3]"
proof (cases q)
  case (Position i j)
  with assms have i: "i = 0 \<or> i = 1 \<or> i = 2 \<or> i = 3 \<or> i = 4"
    and j: "j = 0 \<or> j = 1 \<or> j = 2 \<or> j = 3 \<or> j = 4"
    and n: "\<not> (i = 0 \<and> j = 0)" "\<not> (i = 4 \<and> j = 4)"
    by (simp_all add: in_grid_c5)
  from i j n show ?thesis
    unfolding Position by (elim disjE; simp)
qed

lemma init_grid_unexplored: "\<not> explored (button_at (init_grid c xs) q)"
  by (simp add: init_grid_def set_current_cell_def set_button_def button_at_def
      button_reset_def Let_def)

lemma c5_flood_explored:
  "explored (button_at (open_cell c5 (init_grid c5 [0, 24]) (Position 2 2)) q)
     \<longleftrightarrow> in_grid c5 q \<and> q \<noteq> Position 0 0 \<and> q \<noteq> Position 4 4"
proof
  assume e: "explored (button_at (open_cell c5 (init_grid c5 [0, 24]) (Position 2 2)) q)"
  from e init_grid_unexplored have "in_grid c5 q" by (rule open_cell_new_in_grid(1))
  moreover from e c5_facts(2,3) have "q \<noteq> Position 0 0" "q \<noteq> Position 4 4" by auto
  ultimately show "in_grid c5 q \<and> q \<noteq> Position 0 0 \<and> q \<noteq> Position 4 4" by simp
next
  assume "in_grid c5 q \<and> q \<noteq> Position 0 0 \<and> q \<noteq> Position 4 4"
  then have "q \<in> set
      [Position 0 1, Position 0 2, Position 0 3, Position 0 4, Position 1 0, Position 1 1,
       Position 1 2, Position 1 3, Position 1 4, Position 2 0, Position 2 1, Position 2 2,
       Position 2 3, Position 2 4, Position 3 0, Position 3 1, Position 3 2, Position 3 3,
       Position 3 4, Position 4 0, Position 4 1, Position 4 2, Position 4 3]"
    using c5_cells [of q] by blast
  with c5_facts(1) show "explored (button_at (open_cell c5 (init_grid c5 [0, 24]) (Position 2 2)) q)"
    unfolding list_all_iff by (rule bspec)
qed

section \<open>The claims\<close>

text \<open>
  C9. Opening a cell that is already explored changes nothing: \<open>open_cell\<close> returns the
  state it was given. So a second \<open>open_cell\<close> on the same button, and a second OPEN
  selection of the same button, leave the state of the first one unchanged, the state of
  the cell and \<open>total_explored\<close> included.
\<close>

theorem open_cell_twice:
  assumes "in_grid c pos"
  shows "(explored (button_at s pos) \<longrightarrow> open_cell c s pos = s)
     \<and> open_cell c (open_cell c s pos) pos = open_cell c s pos
     \<and> handle_selected c (handle_selected c s pos OPEN) pos OPEN = handle_selected c s pos OPEN"
proof -
  have noop: "open_cell c t pos = t" if "explored (button_at t pos)" for t
    using that by (simp add: open_cell.simps [of c t pos])
  have twice: "open_cell c (open_cell c t pos) pos = open_cell c t pos" for t
    by (rule noop) (rule open_cell_explores(1) [OF assms])
  define s1 where "s1 = (if pos \<noteq> current_cell s then set_current_cell s pos else s)"
  have cur: "current_cell s1 = pos"
    by (simp add: s1_def set_current_cell_def set_button_def Let_def)
  have hs: "handle_selected c s pos OPEN = (if flagged (button_at s1 pos) then s1 else open_cell c s1 pos)"
    by (simp add: handle_selected_def s1_def Let_def)
  have "handle_selected c (handle_selected c s pos OPEN) pos OPEN = handle_selected c s pos OPEN"
  proof (cases "flagged (button_at s1 pos)")
    case True
    then show ?thesis
      by (simp add: hs) (simp add: handle_selected_def cur)
  next
    case False
    then show ?thesis
      by (simp add: hs) (simp add: handle_selected_def open_cell_frame(1) cur twice)
  qed
  with noop twice show ?thesis by simp
qed

theorem open_cell_twice_witness:
  "in_grid c3 (Position 2 2)
   \<and> total_explored (open_cell c3 (init_grid c3 [0]) (Position 2 2)) = 8
   \<and> total_explored (open_cell c3 (open_cell c3 (init_grid c3 [0]) (Position 2 2)) (Position 2 2)) = 8"
proof -
  have g: "in_grid c3 (Position 2 2)" by (simp add: c3_def in_grid_def)
  have e: "total_explored (open_cell c3 (init_grid c3 [0]) (Position 2 2)) = 8"
    by (simp add: eval_defs)
  from open_cell_twice [OF g, of "init_grid c3 [0]"] g e show ?thesis by simp
qed

text \<open>
  C7. For a sample \<open>xs\<close> as \<open>random.sample(range(GRID_HEIGHT*GRID_WIDTH), amount)\<close>
  returns it (\<open>amount\<close> distinct flattened indices) and a positive width,
  \<open>generate_mines\<close> returns exactly \<open>amount\<close> distinct positions, and each has its row
  in \<open>[0, GRID_HEIGHT)\<close> and its column in \<open>[0, GRID_WIDTH)\<close>. This holds for every
  amount, so also for \<open>0 < MINES_AMOUNT < GRID_WIDTH * GRID_HEIGHT\<close>.
\<close>

theorem generate_mines_distinct_in_grid:
  assumes "is_sample (GRID_HEIGHT c * GRID_WIDTH c) amount xs" and "0 < GRID_WIDTH c"
  shows "int (card (generate_mines c xs)) = amount \<and> (\<forall>p \<in> generate_mines c xs. in_grid c p)"
  using assms by (rule generate_mines_sample)

theorem generate_mines_distinct_in_grid_witness:
  "is_sample (GRID_HEIGHT c3 * GRID_WIDTH c3) 2 [0, 4] \<and> 0 < GRID_WIDTH c3
   \<and> generate_mines c3 [0, 4] = {Position 0 0, Position 1 1}
   \<and> int (card (generate_mines c3 [0, 4])) = 2
   \<and> in_grid c3 (Position 0 0) \<and> in_grid c3 (Position 1 1)"
proof -
  have s: "is_sample (GRID_HEIGHT c3 * GRID_WIDTH c3) 2 [0, 4]"
    by (simp add: is_sample_def c3_def)
  have w: "0 < GRID_WIDTH c3" by (simp add: c3_def)
  have g: "generate_mines c3 [0, 4] = {Position 0 0, Position 1 1}"
    by (simp add: generate_mines_def c3_def)
  from generate_mines_distinct_in_grid [OF s w] s w g show ?thesis by simp
qed

text \<open>
  C4, as the code has it. \<open>count_mines_near\<close> counts the mines of the whole window of
  rows \<open>row-1..row+1\<close> and columns \<open>col-1..col+1\<close>, the position itself included and
  nothing clipped. When every mine lies in the grid (as \<open>generate_mines\<close> gives them)
  and the position is not a mine (\<open>open_cell\<close> calls it only then), the result is the
  number of mines among the up-to-8 neighbours in the grid. It is a function of the set
  of mines and the position alone.
\<close>

theorem count_mines_near_exact:
  assumes "\<forall>m \<in> ms. in_grid c m" and "pos \<notin> ms"
  shows "count_mines_near ms pos = adjacent_mine_count c ms pos"
  using assms by (rule count_mines_near_spec)

theorem count_mines_near_exact_witness:
  "in_grid c3 (Position 0 0) \<and> Position 1 1 \<notin> {Position 0 0}
   \<and> count_mines_near {Position 0 0} (Position 1 1) = 1
   \<and> adjacent_mine_count c3 {Position 0 0} (Position 1 1) = 1"
proof -
  have a: "\<forall>m \<in> {Position 0 0}. in_grid c3 m" by (simp add: c3_def in_grid_def)
  have b: "Position 1 1 \<notin> {Position 0 0}" by simp
  have e: "count_mines_near {Position 0 0} (Position 1 1) = 1"
    by (simp add: count_mines_near_eq)
  from count_mines_near_exact [OF a b] a b e show ?thesis by simp
qed

text \<open>
  C4 as stated fails at a mine: on the board of three rows and columns with its mine at
  (1,1), \<open>count_mines_near\<close> at (1,1) is 1, and no neighbour of (1,1) is a mine.
\<close>

theorem count_mines_near_counts_itself:
  "in_grid c3 (Position 1 1)
   \<and> count_mines_near {Position 1 1} (Position 1 1) = 1
   \<and> adjacent_mine_count c3 {Position 1 1} (Position 1 1) = 0
   \<and> count_mines_near {Position 1 1} (Position 1 1)
       \<noteq> adjacent_mine_count c3 {Position 1 1} (Position 1 1)"
  by (simp add: count_mines_near_eq adjacent_mine_count_def neighbours8_def c3_def in_grid_def)

text \<open>
  C10. A call of \<open>open_cell\<close> explores no mine other than the cell it is called on: the
  cells that the flood opens are never mines. It posts \<open>GameEnd(win=False)\<close> exactly
  when it is called on an unexplored mine of the grid, and then it is the detonation
  alone: that one cell explored, that one message posted, no cell opened after it. So
  a selection posts the loss exactly when it is an OPEN of an unflagged, unexplored mine.
\<close>

theorem loss_only_by_direct_open:
  "(explored_cells (open_cell c s pos) - explored_cells s) \<inter> mines s \<subseteq> {pos}
   \<and> (GameEnd False \<in> set (new_posted s (open_cell c s pos)) \<longleftrightarrow>
        in_grid c pos \<and> \<not> explored (button_at s pos) \<and> pos \<in> mines s)
   \<and> (in_grid c pos \<and> \<not> explored (button_at s pos) \<and> pos \<in> mines s \<longrightarrow>
        open_cell c s pos = detonate (mark_explored s pos) pos
        \<and> explored_cells (open_cell c s pos) = insert pos (explored_cells s)
        \<and> new_posted s (open_cell c s pos) = [GameEnd False])
   \<and> (GameEnd False \<in> set (new_posted s (handle_selected c s pos a)) \<longleftrightarrow>
        a = OPEN \<and> \<not> flagged (button_at s pos) \<and> in_grid c pos
        \<and> \<not> explored (button_at s pos) \<and> pos \<in> mines s)"
proof -
  have a: "(explored_cells (open_cell c s pos) - explored_cells s) \<inter> mines s \<subseteq> {pos}"
    by (rule newly_explored_mines(1))
  have b: "GameEnd False \<in> set (new_posted t (open_cell c t pos)) \<longleftrightarrow>
        in_grid c pos \<and> \<not> explored (button_at t pos) \<and> pos \<in> mines t" for t
    using open_cell_posted(1) [of c t pos] by (auto simp: new_posted_def)
  have d: "open_cell c s pos = detonate (mark_explored s pos) pos
        \<and> explored_cells (open_cell c s pos) = insert pos (explored_cells s)
        \<and> new_posted s (open_cell c s pos) = [GameEnd False]"
    if "in_grid c pos" "\<not> explored (button_at s pos)" "pos \<in> mines s"
    using that
    by (simp add: open_cell.simps [of c s pos] explored_cells_prims new_posted_def posted_prims)
  define s1 where "s1 = (if pos \<noteq> current_cell s then set_current_cell s pos else s)"
  have s1: "posted s1 = posted s" "mines s1 = mines s"
    "explored (button_at s1 pos) = explored (button_at s pos)"
    "flagged (button_at s1 pos) = flagged (button_at s pos)"
    by (simp_all add: s1_def set_current_cell_frame)
  have np: "new_posted s t = new_posted s1 t" for t
    by (simp add: new_posted_def s1(1))
  have hs: "handle_selected c s pos a =
      (if a = OPEN \<and> \<not> flagged (button_at s pos) then open_cell c s1 pos
       else if a = FLAG \<and> \<not> explored (button_at s pos) then flag_cell s1 pos else s1)"
    by (simp add: handle_selected_def s1_def [symmetric] s1 Let_def)
  have e: "GameEnd False \<in> set (new_posted s (handle_selected c s pos a)) \<longleftrightarrow>
        a = OPEN \<and> \<not> flagged (button_at s pos) \<and> in_grid c pos
        \<and> \<not> explored (button_at s pos) \<and> pos \<in> mines s"
    using b [of s1] by (auto simp: hs np s1 new_posted_def flag_cell_frame)
  from a b [of s] d e show ?thesis by blast
qed

theorem loss_only_by_direct_open_witness:
  "in_grid c3 (Position 0 0) \<and> \<not> explored (button_at (init_grid c3 [0]) (Position 0 0))
   \<and> Position 0 0 \<in> mines (init_grid c3 [0])
   \<and> new_posted (init_grid c3 [0]) (open_cell c3 (init_grid c3 [0]) (Position 0 0)) = [GameEnd False]
   \<and> explored_cells (open_cell c3 (init_grid c3 [0]) (Position 0 0))
       = insert (Position 0 0) (explored_cells (init_grid c3 [0]))"
proof -
  have h: "in_grid c3 (Position 0 0)" "\<not> explored (button_at (init_grid c3 [0]) (Position 0 0))"
    "Position 0 0 \<in> mines (init_grid c3 [0])"
    by (simp_all add: eval_defs)
  from loss_only_by_direct_open [of c3 "init_grid c3 [0]" "Position 0 0" OPEN] h
  show ?thesis by blast
qed

text \<open>
  C6, as the code has it. \<open>open_cell\<close> returns on every state (it is a total
  function: each call that recurses has marked one more cell of the grid). The cells it
  explores are cells of the grid that were not explored before, \<open>total_explored\<close> grows
  by exactly their number, so each cell is revealed at most once and there are at most
  \<open>GRID_HEIGHT * GRID_WIDTH\<close> reveals. The guard is inside \<open>open_cell\<close>, so the loops
  call it on explored cells too: the number of calls is at most one plus nine for each
  cell revealed.
\<close>

theorem open_cell_reveals_once:
  "total_explored (open_cell c s pos)
     = total_explored s + int (card (explored_cells (open_cell c s pos) - explored_cells s))
   \<and> explored_cells s \<subseteq> explored_cells (open_cell c s pos)
   \<and> explored_cells (open_cell c s pos) - explored_cells s \<subseteq> cells c
   \<and> card (explored_cells (open_cell c s pos) - explored_cells s)
       \<le> nat (GRID_HEIGHT c) * nat (GRID_WIDTH c)
   \<and> open_cell_calls c s pos
       \<le> 1 + 9 * card (explored_cells (open_cell c s pos) - explored_cells s)"
proof -
  have "card (explored_cells (open_cell c s pos) - explored_cells s) \<le> card (cells c)"
    by (rule card_mono [OF finite_cells newly_explored_in_grid(1)])
  then show ?thesis
    using total_explored_open_cell(1) [of c s pos] explored_cells_mono(1) [of s c pos]
      newly_explored_in_grid(1) [of c s pos] open_cell_calls_bound(1) [of c s pos]
    by (simp add: card_cells)
qed

theorem open_cell_reveals_once_witness:
  "total_explored (init_grid c3 [0]) = 0
   \<and> total_explored (open_cell c3 (init_grid c3 [0]) (Position 2 2)) = 8
   \<and> card (explored_cells (open_cell c3 (init_grid c3 [0]) (Position 2 2))
            - explored_cells (init_grid c3 [0])) = 8
   \<and> open_cell_calls c3 (init_grid c3 [0]) (Position 2 2) = 25"
proof -
  have a: "total_explored (init_grid c3 [0]) = 0"
    "total_explored (open_cell c3 (init_grid c3 [0]) (Position 2 2)) = 8"
    by (simp_all add: eval_defs)
  from open_cell_reveals_once [of c3 "init_grid c3 [0]" "Position 2 2"] a c3_calls
  show ?thesis by simp
qed

text \<open>
  C6 as stated fails on the number of calls: on the board of three rows and columns
  with its mine at (0,0), opening (2,2) makes 25 calls of \<open>open_cell\<close>, on a grid of 9
  cells.
\<close>

theorem open_cell_more_calls_than_cells:
  "open_cell_calls c3 (init_grid c3 [0]) (Position 2 2) = 25
   \<and> GRID_WIDTH c3 * GRID_HEIGHT c3 = 9
   \<and> \<not> int (open_cell_calls c3 (init_grid c3 [0]) (Position 2 2)) \<le> GRID_WIDTH c3 * GRID_HEIGHT c3"
  by (simp add: c3_calls) (simp add: c3_def)

text \<open>
  C5, as the code has it. On a loss, \<open>end_game\<close> shows every mine exploded (label
  \<open>CHAR_MINE\<close>, colour deeppink), the flagged mines too; the \<open>explored\<close> and
  \<open>flagged\<close> attributes of every button, \<open>total_explored\<close>, \<open>mines_flagged\<close>, the
  mines and every button that is no mine stay as they are.
\<close>

theorem end_game_loss_explodes_every_mine:
  "(\<forall>p. p \<in> mines s \<longrightarrow> button_at (end_game s (GameEnd False)) p = explode (button_at s p))
   \<and> (\<forall>p. p \<notin> mines s \<longrightarrow> button_at (end_game s (GameEnd False)) p = button_at s p)
   \<and> (\<forall>p. explored (button_at (end_game s (GameEnd False)) p) = explored (button_at s p)
          \<and> flagged (button_at (end_game s (GameEnd False)) p) = flagged (button_at s p))
   \<and> total_explored (end_game s (GameEnd False)) = total_explored s
   \<and> mines_flagged (end_game s (GameEnd False)) = mines_flagged s
   \<and> mines (end_game s (GameEnd False)) = mines s
   \<and> posted (end_game s (GameEnd False)) = posted s
   \<and> disabled (end_game s (GameEnd False))"
  by (simp add: end_game_def reveal_mines_def button_at_def explode_def)

theorem end_game_loss_explodes_every_mine_witness:
  "Position 0 0 \<in> mines (init_grid c3 [0]) \<and> Position 1 1 \<notin> mines (init_grid c3 [0])
   \<and> label (button_at (end_game (init_grid c3 [0]) (GameEnd False)) (Position 0 0)) = CHAR_MINE
   \<and> color (button_at (end_game (init_grid c3 [0]) (GameEnd False)) (Position 0 0)) = ''deeppink''
   \<and> label (button_at (end_game (init_grid c3 [0]) (GameEnd False)) (Position 1 1)) = CHAR_UNOPENED"
proof -
  have m: "Position 0 0 \<in> mines (init_grid c3 [0])" "Position 1 1 \<notin> mines (init_grid c3 [0])"
    by (simp_all add: eval_defs)
  have l: "label (button_at (init_grid c3 [0]) (Position 1 1)) = CHAR_UNOPENED"
    by (simp add: eval_defs)
  from end_game_loss_explodes_every_mine [of "init_grid c3 [0]"] m l
  show ?thesis by (simp add: explode_def)
qed

text \<open>
  C5 as stated fails at a flagged mine: on the board of three rows and columns, after
  the mine (0,0) is flagged, the loss replaces its flag label by the mine label.
\<close>

theorem end_game_loss_changes_flagged_mine:
  "Position 0 0 \<in> mines (handle_selected c3 (init_grid c3 [0]) (Position 0 0) FLAG)
   \<and> flagged (button_at (handle_selected c3 (init_grid c3 [0]) (Position 0 0) FLAG) (Position 0 0))
   \<and> label (button_at (handle_selected c3 (init_grid c3 [0]) (Position 0 0) FLAG) (Position 0 0))
       = CHAR_FLAGGED
   \<and> label (button_at (end_game (handle_selected c3 (init_grid c3 [0]) (Position 0 0) FLAG)
                (GameEnd False)) (Position 0 0)) = CHAR_MINE
   \<and> button_at (end_game (handle_selected c3 (init_grid c3 [0]) (Position 0 0) FLAG)
                (GameEnd False)) (Position 0 0)
       \<noteq> button_at (handle_selected c3 (init_grid c3 [0]) (Position 0 0) FLAG) (Position 0 0)"
  by (simp add: eval_defs end_game_def reveal_mines_def explode_def)

text \<open>
  C8. An OPEN selection of a flagged, unexplored button opens nothing: the button stays
  flagged and unexplored, the explored cells, \<open>total_explored\<close> and the message queue
  stay as they are (only the cell marker moves to the button). After a FLAG selection
  has taken the flag away, an OPEN selection is the call of \<open>open_cell\<close>: the button is
  explored and \<open>total_explored\<close> has grown.
\<close>

theorem open_blocked_on_flagged:
  assumes "in_grid c pos" and "flagged (button_at s pos)" and "\<not> explored (button_at s pos)"
  shows "flagged (button_at (handle_selected c s pos OPEN) pos)
     \<and> \<not> explored (button_at (handle_selected c s pos OPEN) pos)
     \<and> explored_cells (handle_selected c s pos OPEN) = explored_cells s
     \<and> total_explored (handle_selected c s pos OPEN) = total_explored s
     \<and> posted (handle_selected c s pos OPEN) = posted s
     \<and> \<not> flagged (button_at (handle_selected c (handle_selected c s pos OPEN) pos FLAG) pos)
     \<and> handle_selected c (handle_selected c (handle_selected c s pos OPEN) pos FLAG) pos OPEN
         = open_cell c (handle_selected c (handle_selected c s pos OPEN) pos FLAG) pos
     \<and> explored (button_at
          (handle_selected c (handle_selected c (handle_selected c s pos OPEN) pos FLAG) pos OPEN) pos)
     \<and> total_explored s + 1 \<le> total_explored
          (handle_selected c (handle_selected c (handle_selected c s pos OPEN) pos FLAG) pos OPEN)"
proof -
  define s1 where "s1 = handle_selected c s pos OPEN"
  define s2 where "s2 = handle_selected c s1 pos FLAG"
  define s3 where "s3 = handle_selected c s2 pos OPEN"
  have s1: "s1 = (if pos \<noteq> current_cell s then set_current_cell s pos else s)"
    using assms(2) by (cases "pos = current_cell s")
      (simp_all add: s1_def handle_selected_def Let_def set_current_cell_frame)
  have c1: "current_cell s1 = pos"
    by (simp add: s1 set_current_cell_frame)
  have f1: "flagged (button_at s1 pos)" "\<not> explored (button_at s1 pos)"
    "explored_cells s1 = explored_cells s" "total_explored s1 = total_explored s"
    "posted s1 = posted s"
    using assms(2,3) by (auto simp: s1 set_current_cell_frame explored_cells_def)
  have s2: "s2 = flag_cell s1 pos"
    using f1(2) by (simp add: s2_def handle_selected_def c1)
  have f2: "\<not> flagged (button_at s2 pos)" "\<not> explored (button_at s2 pos)"
    "total_explored s2 = total_explored s" "current_cell s2 = pos"
    using f1 c1 by (simp_all add: s2 flag_cell_frame)
  have s3: "s3 = open_cell c s2 pos"
    using f2 by (simp add: s3_def handle_selected_def)
  have f3: "explored (button_at s3 pos)"
    unfolding s3 by (rule open_cell_explores(1) [OF assms(1)])
  have "total_explored s2 + 1 \<le> total_explored s3"
    unfolding s3 by (rule open_cell_increments [OF assms(1) f2(2)])
  with f1 f2 s3 f3 show ?thesis
    unfolding s1_def [symmetric] s2_def [symmetric] s3_def [symmetric] by simp
qed

theorem open_blocked_on_flagged_witness:
  "in_grid c3 (Position 1 1)
   \<and> flagged (button_at (handle_selected c3 (init_grid c3 [0]) (Position 1 1) FLAG) (Position 1 1))
   \<and> \<not> explored (button_at (handle_selected c3 (init_grid c3 [0]) (Position 1 1) FLAG) (Position 1 1))
   \<and> total_explored (handle_selected c3 (init_grid c3 [0]) (Position 1 1) FLAG) = 0
   \<and> total_explored (handle_selected c3
         (handle_selected c3 (init_grid c3 [0]) (Position 1 1) FLAG) (Position 1 1) OPEN) = 0
   \<and> flagged (button_at (handle_selected c3
         (handle_selected c3 (init_grid c3 [0]) (Position 1 1) FLAG) (Position 1 1) OPEN) (Position 1 1))
   \<and> explored (button_at (handle_selected c3 (handle_selected c3 (handle_selected c3
         (handle_selected c3 (init_grid c3 [0]) (Position 1 1) FLAG)
           (Position 1 1) OPEN) (Position 1 1) FLAG) (Position 1 1) OPEN) (Position 1 1))"
proof -
  let ?s = "handle_selected c3 (init_grid c3 [0]) (Position 1 1) FLAG"
  have h: "in_grid c3 (Position 1 1)" "flagged (button_at ?s (Position 1 1))"
    "\<not> explored (button_at ?s (Position 1 1))"
    by (simp_all add: eval_defs)
  have t: "total_explored ?s = 0" by (simp add: eval_defs)
  note r = open_blocked_on_flagged [OF h]
  from r have 1: "total_explored (handle_selected c3 ?s (Position 1 1) OPEN) = total_explored ?s"
    by blast
  from r have 2: "flagged (button_at (handle_selected c3 ?s (Position 1 1) OPEN) (Position 1 1))"
    by blast
  from r have 3: "explored (button_at (handle_selected c3 (handle_selected c3
      (handle_selected c3 ?s (Position 1 1) OPEN) (Position 1 1) FLAG) (Position 1 1) OPEN)
      (Position 1 1))"
    by blast
  from h t 1 2 3 show ?thesis by simp
qed

text \<open>
  C2 fails on the code. \<open>handle_selected\<close> opens a button only when it is not flagged
  and flags one only when it is not explored, but the loops of \<open>open_cell\<close> call
  \<open>open_cell\<close> on the adjacent buttons without the test for the flag. On the standard
  board with the mines of \<open>std_sample\<close> (a sample as \<open>random.sample\<close> can draw
  it: \<open>std_sample_ok\<close>), flagging (14,14) and then opening (15,15)
  leaves (14,14) flagged and explored.
\<close>

theorem flood_explores_flagged_cell:
  "flagged (button_at
        (handle_selected std_cfg (init_grid std_cfg std_sample) (Position 14 14) FLAG)
        (Position 14 14))
   \<and> flagged (button_at
        (handle_selected std_cfg
           (handle_selected std_cfg (init_grid std_cfg std_sample) (Position 14 14) FLAG)
           (Position 15 15) OPEN)
        (Position 14 14))
   \<and> explored (button_at
        (handle_selected std_cfg
           (handle_selected std_cfg (init_grid std_cfg std_sample) (Position 14 14) FLAG)
           (Position 15 15) OPEN)
        (Position 14 14))"
  by (simp add: eval_defs std_cfg_def std_sample_def)

text \<open>
  C3. In a game that has not ended, a selection of a button of the grid posts
  \<open>GameEnd(win=True)\<close> if and only if it leaves \<open>total_explored\<close> equal to
  \<open>GRID_HEIGHT * GRID_WIDTH - MINES_AMOUNT\<close> with no mine explored. (The test of the
  source is \<open>>=\<close>; as long as no mine is explored the count cannot pass the bound.)
  A selection that posts neither the win nor the loss leaves a game that has not ended,
  so the statement holds for every selection of a game, from \<open>init_grid\<close> on.
\<close>

theorem win_posted_iff_cleared:
  assumes "playing c s" and "in_grid c pos"
  shows "(GameEnd True \<in> set (new_posted s (handle_selected c s pos a)) \<longleftrightarrow>
           total_explored (handle_selected c s pos a)
             = GRID_HEIGHT c * GRID_WIDTH c - MINES_AMOUNT c
           \<and> explored_cells (handle_selected c s pos a) \<inter> mines (handle_selected c s pos a) = {})
       \<and> (GameEnd True \<notin> set (new_posted s (handle_selected c s pos a))
            \<and> GameEnd False \<notin> set (new_posted s (handle_selected c s pos a))
           \<longrightarrow> playing c (handle_selected c s pos a))"
proof -
  define s1 where "s1 = (if pos \<noteq> current_cell s then set_current_cell s pos else s)"
  have s1: "posted s1 = posted s" "mines s1 = mines s" "explored_cells s1 = explored_cells s"
    "total_explored s1 = total_explored s"
    by (simp_all add: s1_def set_current_cell_frame explored_cells_def)
  have p1: "playing c s1"
    using assms(1) by (simp add: playing_def s1)
  have np: "new_posted s t = new_posted s1 t" for t
    by (simp add: new_posted_def s1(1))
  have lt: "total_explored s1 < GRID_HEIGHT c * GRID_WIDTH c - MINES_AMOUNT c"
    using p1 by (simp add: playing_def)
  show ?thesis
  proof (cases "a = OPEN \<and> \<not> flagged (button_at s1 pos)")
    case True
    then have "handle_selected c s pos a = open_cell c s1 pos"
      by (simp add: handle_selected_def s1_def [symmetric] Let_def)
    then show ?thesis
      using open_cell_win [OF p1 assms(2)] by (simp add: np)
  next
    case False
    then have "handle_selected c s pos a = s1 \<or> handle_selected c s pos a = flag_cell s1 pos"
      by (auto simp: handle_selected_def s1_def [symmetric] Let_def)
    then have same: "posted (handle_selected c s pos a) = posted s1"
      "mines (handle_selected c s pos a) = mines s1"
      "explored_cells (handle_selected c s pos a) = explored_cells s1"
      "total_explored (handle_selected c s pos a) = total_explored s1"
      by (auto simp: flag_cell_frame explored_cells_def)
    have "playing c (handle_selected c s pos a)"
      using p1 by (simp add: playing_def same)
    then show ?thesis
      using lt by (simp add: new_posted_def same s1(1))
  qed
qed

theorem win_posted_iff_cleared_witness:
  "playing c3 (init_grid c3 [0]) \<and> in_grid c3 (Position 2 2)
   \<and> GameEnd True \<in> set (new_posted (init_grid c3 [0])
        (handle_selected c3 (init_grid c3 [0]) (Position 2 2) OPEN))
   \<and> total_explored (handle_selected c3 (init_grid c3 [0]) (Position 2 2) OPEN) = 8
   \<and> explored_cells (handle_selected c3 (init_grid c3 [0]) (Position 2 2) OPEN)
        \<inter> mines (handle_selected c3 (init_grid c3 [0]) (Position 2 2) OPEN) = {}"
proof -
  have "is_sample (GRID_HEIGHT c3 * GRID_WIDTH c3) (MINES_AMOUNT c3) [0]"
    by (simp add: is_sample_def c3_def)
  then have p: "playing c3 (init_grid c3 [0])"
    by (rule playing_init) (simp_all add: c3_def)
  have g: "in_grid c3 (Position 2 2)" by (simp add: c3_def in_grid_def)
  have w: "GameEnd True \<in> set (new_posted (init_grid c3 [0])
        (handle_selected c3 (init_grid c3 [0]) (Position 2 2) OPEN))"
    by (simp add: new_posted_def eval_defs)
  have t: "GRID_HEIGHT c3 * GRID_WIDTH c3 - MINES_AMOUNT c3 = 8" by (simp add: c3_def)
  from win_posted_iff_cleared [OF p g, of OPEN] w t p g show ?thesis by simp
qed

text \<open>
  C1. When \<open>open_cell\<close> is called on an unexplored cell of the grid that is no mine and
  whose adjacency count (the number of mines among its up-to-8 bounds-clipped
  neighbours, on a board whose mines lie in the grid) is 0, every one of these
  neighbours is explored when it returns. In a state where no flood is under way, the
  cells explored when it returns are those explored before and exactly the contiguous
  zero-count region of the cell, and again no flood is left under way. On the board of
  three rows and columns with its only mine at (0,0), opening (2,2) explores every cell
  but the mine in that one call, brings \<open>total_explored\<close> to
  \<open>GRID_HEIGHT * GRID_WIDTH - MINES_AMOUNT\<close> and posts the win; on the board of five
  rows and columns with mines at (0,0) and (4,4), opening the centre (2,2) does the same
  in every direction.
\<close>

theorem flood_fill_clears_region:
  "(in_grid c pos \<and> \<not> explored (button_at s pos) \<and> pos \<notin> mines s \<and> mines s \<subseteq> cells c
      \<and> adjacent_mine_count c (mines s) pos = 0
      \<longrightarrow> set (neighbours8 c pos) \<subseteq> explored_cells (open_cell c s pos))
   \<and> (in_grid c pos \<and> mines s \<subseteq> cells c \<and> flood_done c s
      \<longrightarrow> explored_cells (open_cell c s pos) = explored_cells s \<union> zero_region c (mines s) pos
          \<and> flood_done c (open_cell c s pos))
   \<and> mines (init_grid c3 [0]) = {Position 0 0}
   \<and> adjacent_mine_count c3 (mines (init_grid c3 [0])) (Position 2 2) = 0
   \<and> (\<forall>q. explored (button_at (open_cell c3 (init_grid c3 [0]) (Position 2 2)) q)
          \<longleftrightarrow> in_grid c3 q \<and> q \<noteq> Position 0 0)
   \<and> total_explored (open_cell c3 (init_grid c3 [0]) (Position 2 2))
        = GRID_HEIGHT c3 * GRID_WIDTH c3 - MINES_AMOUNT c3
   \<and> GameEnd True \<in> set (posted (open_cell c3 (init_grid c3 [0]) (Position 2 2)))
   \<and> GameEnd False \<notin> set (posted (open_cell c3 (init_grid c3 [0]) (Position 2 2)))
   \<and> mines (init_grid c5 [0, 24]) = {Position 0 0, Position 4 4}
   \<and> adjacent_mine_count c5 (mines (init_grid c5 [0, 24])) (Position 2 2) = 0
   \<and> (\<forall>q. explored (button_at (open_cell c5 (init_grid c5 [0, 24]) (Position 2 2)) q)
          \<longleftrightarrow> in_grid c5 q \<and> q \<noteq> Position 0 0 \<and> q \<noteq> Position 4 4)
   \<and> total_explored (open_cell c5 (init_grid c5 [0, 24]) (Position 2 2)) = GRID_HEIGHT c5 * GRID_WIDTH c5 - MINES_AMOUNT c5
   \<and> set (posted (open_cell c5 (init_grid c5 [0, 24]) (Position 2 2))) = {GameEnd True}"
proof -
  have p1: "in_grid c pos \<and> \<not> explored (button_at s pos) \<and> pos \<notin> mines s \<and> mines s \<subseteq> cells c
      \<and> adjacent_mine_count c (mines s) pos = 0
      \<longrightarrow> set (neighbours8 c pos) \<subseteq> explored_cells (open_cell c s pos)"
  proof
    assume h: "in_grid c pos \<and> \<not> explored (button_at s pos) \<and> pos \<notin> mines s
      \<and> mines s \<subseteq> cells c \<and> adjacent_mine_count c (mines s) pos = 0"
    then have "pos \<in> explored_cells (open_cell c s pos) - explored_cells s"
      by (simp add: explored_cells_def open_cell_explores(1))
    moreover have "count_mines_near (mines s) pos = 0"
      using h count_zero_spec [of "mines s" c pos] by simp
    ultimately have "set (adjacent c pos) \<subseteq> explored_cells (open_cell c s pos)"
      using h flood_closed(1) [of c s pos] by blast
    with neighbours8_adjacent(1) [of c pos]
    show "set (neighbours8 c pos) \<subseteq> explored_cells (open_cell c s pos)" by blast
  qed
  have p2: "in_grid c pos \<and> mines s \<subseteq> cells c \<and> flood_done c s
      \<longrightarrow> explored_cells (open_cell c s pos) = explored_cells s \<union> zero_region c (mines s) pos
          \<and> flood_done c (open_cell c s pos)"
  proof
    assume h: "in_grid c pos \<and> mines s \<subseteq> cells c \<and> flood_done c s"
    then have g: "in_grid c pos" and m: "mines s \<subseteq> cells c" and f: "flood_done c s"
      by simp_all
    have "explored_cells (open_cell c s pos) \<subseteq> explored_cells s \<union> zero_region c (mines s) pos"
      using newly_explored_in_region(1) [OF m, of pos] by blast
    moreover have "explored_cells s \<subseteq> explored_cells (open_cell c s pos)"
      by (rule explored_cells_mono)
    moreover have "zero_region c (mines s) pos \<subseteq> explored_cells (open_cell c s pos)"
      using zero_region_explored [OF g m f] by blast
    ultimately have "explored_cells (open_cell c s pos)
        = explored_cells s \<union> zero_region c (mines s) pos"
      by blast
    with flood_done_open_cell [OF m f, of pos]
    show "explored_cells (open_cell c s pos) = explored_cells s \<union> zero_region c (mines s) pos
          \<and> flood_done c (open_cell c s pos)"
      by simp
  qed
  have m3: "mines (init_grid c3 [0]) = {Position 0 0}"
    by (simp add: eval_defs)
  have z3: "adjacent_mine_count c3 (mines (init_grid c3 [0])) (Position 2 2) = 0"
    unfolding m3 by (simp add: adjacent_mine_count_def neighbours8_def c3_def in_grid_def)
  have e3: "\<forall>q. explored (button_at (open_cell c3 (init_grid c3 [0]) (Position 2 2)) q)
          \<longleftrightarrow> in_grid c3 q \<and> q \<noteq> Position 0 0"
    by (rule allI) (rule c3_flood_explored)
  have z5: "adjacent_mine_count c5 (mines (init_grid c5 [0, 24])) (Position 2 2) = 0"
    unfolding c5_mines by (simp add: adjacent_mine_count_def neighbours8_def c5_def in_grid_def)
  have e5: "\<forall>q. explored (button_at (open_cell c5 (init_grid c5 [0, 24]) (Position 2 2)) q)
          \<longleftrightarrow> in_grid c5 q \<and> q \<noteq> Position 0 0 \<and> q \<noteq> Position 4 4"
    by (rule allI) (rule c5_flood_explored)
  have t5: "total_explored (open_cell c5 (init_grid c5 [0, 24]) (Position 2 2)) = GRID_HEIGHT c5 * GRID_WIDTH c5 - MINES_AMOUNT c5"
    by (simp add: c5_facts(4)) (simp add: c5_def)
  show ?thesis
    by (rule conjI [OF p1 conjI [OF p2 conjI [OF m3 conjI [OF z3 conjI [OF e3
      conjI [OF c3_flood_counts(1) conjI [OF c3_flood_counts(2) conjI [OF c3_flood_counts(3)
      conjI [OF c5_mines conjI [OF z5 conjI [OF e5 conjI [OF t5 c5_facts(5)]]]]]]]]]]]])
qed

theorem flood_fill_clears_region_witness:
  "in_grid c5 (Position 2 2) \<and> \<not> explored (button_at (init_grid c5 [0, 24]) (Position 2 2))
   \<and> Position 2 2 \<notin> mines (init_grid c5 [0, 24])
   \<and> mines (init_grid c5 [0, 24]) \<subseteq> cells c5
   \<and> adjacent_mine_count c5 (mines (init_grid c5 [0, 24])) (Position 2 2) = 0
   \<and> flood_done c5 (init_grid c5 [0, 24])
   \<and> Position 3 3 \<in> set (neighbours8 c5 (Position 2 2))
   \<and> Position 3 3 \<in> explored_cells (open_cell c5 (init_grid c5 [0, 24]) (Position 2 2))
   \<and> Position 4 0 \<in> zero_region c5 (mines (init_grid c5 [0, 24])) (Position 2 2)
   \<and> Position 4 0 \<in> explored_cells (open_cell c5 (init_grid c5 [0, 24]) (Position 2 2))
   \<and> flood_done c5 (open_cell c5 (init_grid c5 [0, 24]) (Position 2 2))"
proof -
  let ?s = "init_grid c5 [0, 24]"
  note m = c5_mines
  have g: "in_grid c5 (Position 2 2)" by (simp add: c5_def in_grid_def)
  have u: "\<not> explored (button_at ?s (Position 2 2))" by (rule init_grid_unexplored)
  have n: "Position 2 2 \<notin> mines ?s" by (simp add: m)
  have sub: "mines ?s \<subseteq> cells c5"
    unfolding m by (simp add: cells_def in_grid_def c5_def)
  have z: "adjacent_mine_count c5 (mines ?s) (Position 2 2) = 0"
    unfolding m by (simp add: adjacent_mine_count_def neighbours8_def c5_def in_grid_def)
  have f: "flood_done c5 ?s" by (rule flood_done_init)
  have a1: "Position 3 3 \<in> set (neighbours8 c5 (Position 2 2))"
    and a2: "Position 3 1 \<in> set (neighbours8 c5 (Position 2 2))"
    and a3: "Position 4 0 \<in> set (neighbours8 c5 (Position 3 1))"
    by (simp_all add: set_neighbours8 in_grid_def c5_def)
  have "Position 3 1 \<in> zero_region c5 (mines ?s) (Position 2 2)"
    by (rule zero_region.step [OF zero_region.start n z a2])
  moreover have "Position 3 1 \<notin> mines ?s"
    unfolding m by simp
  moreover have "adjacent_mine_count c5 (mines ?s) (Position 3 1) = 0"
    unfolding m by (simp add: adjacent_mine_count_def neighbours8_def c5_def in_grid_def)
  ultimately have r: "Position 4 0 \<in> zero_region c5 (mines ?s) (Position 2 2)"
    using a3 by (rule zero_region.step)
  note t = flood_fill_clears_region [of c5 "Position 2 2" ?s]
  have "set (neighbours8 c5 (Position 2 2)) \<subseteq> explored_cells (open_cell c5 (init_grid c5 [0, 24]) (Position 2 2))"
    by (rule t [THEN conjunct1, THEN mp]) (intro conjI g u n sub z)
  with a1 have e1: "Position 3 3 \<in> explored_cells (open_cell c5 (init_grid c5 [0, 24]) (Position 2 2))" by (rule subsetD [rotated])
  have c2: "explored_cells (open_cell c5 (init_grid c5 [0, 24]) (Position 2 2))
      = explored_cells ?s \<union> zero_region c5 (mines ?s) (Position 2 2)
      \<and> flood_done c5 (open_cell c5 (init_grid c5 [0, 24]) (Position 2 2))"
    by (rule t [THEN conjunct2, THEN conjunct1, THEN mp]) (intro conjI g sub f)
  from c2 have e2: "explored_cells (open_cell c5 (init_grid c5 [0, 24]) (Position 2 2))
      = explored_cells ?s \<union> zero_region c5 (mines ?s) (Position 2 2)" by (rule conjunct1)
  from c2 have e3: "flood_done c5 (open_cell c5 (init_grid c5 [0, 24]) (Position 2 2))" by (rule conjunct2)
  have e4: "Position 4 0 \<in> explored_cells (open_cell c5 (init_grid c5 [0, 24]) (Position 2 2))"
    unfolding e2 using r by (rule UnI2)
  show ?thesis
    by (intro conjI g u n sub z f a1 e1 r e4 e3)
qed

end
